theory Spec2Isabelle
  imports
    Complex_Main
    "HOL-Library.Char_ord"
    "HOL-Library.List_Lexorder"
    "HOL-Library.Product_Lexorder"
begin

section \<open>Data model\<close>

text \<open>
  A Python \<^verbatim>\<open>Coord\<close> dict \<^verbatim>\<open>{"x": a, "y": b}\<close> and the tuple key \<^verbatim>\<open>(a, b)\<close> that the
  code builds from it are both the pair \<open>(a, b)\<close> of unbounded integers.
\<close>

type_synonym cell = "int \<times> int"

record snake =
  snake_id :: string
  head :: cell
  body :: "cell list"
  snake_length :: int
  health :: int

record board =
  width :: int
  height :: int
  snakes :: "snake list"
  food :: "cell list"

record game_state =
  board :: board
  you :: snake

datatype py_error = IndexError | KeyError | OverflowError

text \<open>
  A computation that may raise returns \<open>Inl\<close> of the error; \<open>and_then\<close> runs the next
  statement when the previous one has not raised, and \<open>map_err\<close> is a \<^verbatim>\<open>for\<close> loop that
  appends one value per item and stops at the first error.
\<close>

definition and_then :: "py_error + 'a \<Rightarrow> ('a \<Rightarrow> py_error + 'b) \<Rightarrow> py_error + 'b" where
  "and_then x f = (case x of Inl e \<Rightarrow> Inl e | Inr v \<Rightarrow> f v)"

fun map_err :: "('a \<Rightarrow> py_error + 'b) \<Rightarrow> 'a list \<Rightarrow> py_error + 'b list" where
  "map_err f [] = Inr []"
| "map_err f (x # xs) =
     and_then (f x) (\<lambda>y. and_then (map_err f xs) (\<lambda>ys. Inr (y # ys)))"

text \<open>
  The scores are Python floats. Where an \<^verbatim>\<open>int\<close> meets a \<^verbatim>\<open>float\<close> in \<^verbatim>\<open>+\<close>, \<^verbatim>\<open>-\<close>,
  \<^verbatim>\<open>*\<close> or \<^verbatim>\<open>/\<close>, Python converts the \<^verbatim>\<open>int\<close> to a \<^verbatim>\<open>float\<close> and raises
  \<^verbatim>\<open>OverflowError\<close> when it rounds to a magnitude above the largest finite double, that
  is when its magnitude is at least \<open>2^1024 - 2^970\<close>: this is \<open>py_float\<close>. An operation
  on two floats does not raise. The value of a float is modelled by an exact rational:
  rounding, infinities and NaN are not modelled. The calls of \<^verbatim>\<open>random.random()\<close> are an
  input \<open>rnd\<close>: the value of the \<open>i\<close>-th call made by one invocation of \<^verbatim>\<open>move\<close> is
  \<open>rnd i\<close>.
\<close>

definition py_float :: "int \<Rightarrow> py_error + rat" where
  "py_float n = (if \<bar>n\<bar> < 2 ^ 1024 - 2 ^ 970 then Inr (of_int n) else Inl OverflowError)"

section \<open>Helpers shared by safe.py, greedy.py and aggressive.py\<close>

text \<open>The dict \<^verbatim>\<open>DIRECTIONS\<close>, in its iteration order.\<close>

definition DIRECTIONS :: "(string \<times> (int \<times> int)) list" where
  "DIRECTIONS = [(''up'', (0, 1)), (''down'', (0, -1)), (''left'', (-1, 0)), (''right'', (1, 0))]"

definition add :: "cell \<Rightarrow> int \<times> int \<Rightarrow> cell" where
  "add a b = (fst a + fst b, snd a + snd b)"

definition in_bounds :: "cell \<Rightarrow> int \<Rightarrow> int \<Rightarrow> bool" where
  "in_bounds pt w h \<longleftrightarrow> 0 \<le> fst pt \<and> fst pt < w \<and> 0 \<le> snd pt \<and> snd pt < h"

definition manhattan :: "cell \<Rightarrow> cell \<Rightarrow> int" where
  "manhattan a b = \<bar>fst a - fst b\<bar> + \<bar>snd a - snd b\<bar>"

text \<open>\<^verbatim>\<open>board_occupied_cells\<close> (safe.py), \<^verbatim>\<open>all_body_cells\<close> (greedy.py, aggressive.py).\<close>

definition board_occupied_cells :: "game_state \<Rightarrow> cell set" where
  "board_occupied_cells gs =
     fold (\<lambda>s occ. fold insert (body s) occ) (snakes (board gs)) {}"

text \<open>
  \<^verbatim>\<open>next_heads_of_opponents\<close> (safe.py), \<^verbatim>\<open>next_heads_set\<close> (greedy.py, aggressive.py):
  the loop runs over all of \<^verbatim>\<open>board["snakes"]\<close>.
\<close>

definition head_steps :: "int \<Rightarrow> int \<Rightarrow> cell \<Rightarrow> cell set \<Rightarrow> cell set" where
  "head_steps w h hd0 danger =
     fold (\<lambda>(mv, d) acc. if in_bounds (add hd0 d) w h then insert (add hd0 d) acc else acc)
       DIRECTIONS danger"

definition next_heads_of_opponents :: "game_state \<Rightarrow> cell set" where
  "next_heads_of_opponents gs =
     fold (\<lambda>s danger. head_steps (width (board gs)) (height (board gs)) (head s) danger)
       (snakes (board gs)) {}"

subsection \<open>Space estimator\<close>

text \<open>
  The body of the inner \<^verbatim>\<open>for\<close> loop of the flood fill for one delta, and the whole
  loop: the state is \<open>(seen, q)\<close>.
\<close>

definition visit_step :: "cell set \<Rightarrow> int \<Rightarrow> int \<Rightarrow> cell \<Rightarrow> int \<times> int \<Rightarrow> cell set \<times> cell list \<Rightarrow> cell set \<times> cell list" where
  "visit_step blocked w h cur d sq =
     (case sq of (seen, q) \<Rightarrow>
        let key = add cur d in
        if in_bounds key w h \<and> key \<notin> blocked \<and> key \<notin> seen
        then (insert key seen, q @ [key]) else (seen, q))"

definition visit :: "cell set \<Rightarrow> int \<Rightarrow> int \<Rightarrow> cell \<Rightarrow> cell set \<times> cell list \<Rightarrow> cell set \<times> cell list" where
  "visit blocked w h cur sq =
     fold (\<lambda>(mv, d) sq'. visit_step blocked w h cur d sq') DIRECTIONS sq"

function flood_loop :: "cell set \<Rightarrow> int \<Rightarrow> int \<Rightarrow> int \<Rightarrow> cell set \<Rightarrow> cell list \<Rightarrow> int \<Rightarrow> int" where
  "flood_loop blocked w h limit seen q count =
     (case q of
        [] \<Rightarrow> count
      | cur # rest \<Rightarrow>
          if count < limit
          then (case visit blocked w h cur (seen, rest) of
                  (seen', q') \<Rightarrow> flood_loop blocked w h limit seen' q' (count + 1))
          else count)"
  by pat_completeness auto
termination
  by (relation "measure (\<lambda>(blocked, w, h, limit, seen, q, count). nat (limit - count))") auto

definition flood_fill_size :: "cell \<Rightarrow> cell set \<Rightarrow> int \<Rightarrow> int \<Rightarrow> int \<Rightarrow> int" where
  "flood_fill_size start blocked w h limit =
     (if start \<in> blocked \<or> \<not> in_bounds start w h then 0
      else flood_loop blocked w h limit {start} [start] 0)"

subsection \<open>Food\<close>

text \<open>Python's \<^verbatim>\<open>min(xs, key=k)\<close> on a non-empty list: the first element of least key.\<close>

fun min_by :: "('a \<Rightarrow> int) \<Rightarrow> 'a \<Rightarrow> 'a list \<Rightarrow> 'a" where
  "min_by key best [] = best"
| "min_by key best (x # xs) = min_by key (if key x < key best then x else best) xs"

definition nearest_food :: "cell \<Rightarrow> cell list \<Rightarrow> cell option" where
  "nearest_food my_head foods =
     (case foods of [] \<Rightarrow> None | f # fs \<Rightarrow> Some (min_by (manhattan my_head) f fs))"

subsection \<open>Safety filter\<close>

text \<open>
  The dict \<^verbatim>\<open>is_move_safe\<close> has the four keys of \<^verbatim>\<open>DIRECTIONS\<close> and is read at these keys
  only: it is a function from the move token. \<open>neck_check\<close> is the block
  "disallow reversing into our neck" of each \<^verbatim>\<open>move\<close>.
\<close>

definition neck_check :: "cell \<Rightarrow> cell list \<Rightarrow> string \<Rightarrow> bool" where
  "neck_check my_head my_body =
     (let s0 = (\<lambda>m. True) in
      if 2 \<le> length my_body then
        let neck = my_body ! 1;
            s1 = (if fst neck < fst my_head then s0(''left'' := False) else s0);
            s2 = (if fst neck > fst my_head then s1(''right'' := False) else s1);
            s3 = (if snd neck < snd my_head then s2(''down'' := False) else s2);
            s4 = (if snd neck > snd my_head then s3(''up'' := False) else s3)
        in s4
      else s0)"

text \<open>The loop that builds \<^verbatim>\<open>candidates\<close>, over the items of \<^verbatim>\<open>DIRECTIONS\<close>.\<close>

fun candidates_loop ::
  "(string \<times> (int \<times> int)) list \<Rightarrow> (string \<Rightarrow> bool) \<Rightarrow> cell \<Rightarrow> int \<Rightarrow> int \<Rightarrow> cell set \<Rightarrow> cell set
     \<Rightarrow> (string \<times> cell) list" where
  "candidates_loop [] safe my_head w h blocked avoid = []"
| "candidates_loop ((mv, d) # ds) safe my_head w h blocked avoid =
     (let nxt = add my_head d; rest = candidates_loop ds safe my_head w h blocked avoid in
      if \<not> safe mv then rest
      else if \<not> in_bounds nxt w h then rest
      else if nxt \<in> blocked then rest
      else if nxt \<in> avoid then rest
      else (mv, nxt) # rest)"

text \<open>
  \<^verbatim>\<open>blocked\<close>: every body cell, with our current tail cell discarded. It is built after
  \<^verbatim>\<open>my_body[-1]\<close> has been read, which raises on an empty body (see the \<open>move\<close> functions).
\<close>

definition blocked_cells :: "game_state \<Rightarrow> cell set" where
  "blocked_cells gs = board_occupied_cells gs - {last (body (you gs))}"

definition candidates_with :: "game_state \<Rightarrow> cell set \<Rightarrow> (string \<times> cell) list" where
  "candidates_with gs avoid =
     candidates_loop DIRECTIONS (neck_check (head (you gs)) (body (you gs))) (head (you gs))
       (width (board gs)) (height (board gs)) (blocked_cells gs) avoid"

text \<open>
  \<^verbatim>\<open>scored.sort(reverse=True); best_move = scored[0][1]\<close>, on tuples \<^verbatim>\<open>(score, mv)\<close>
  compared as Python compares tuples.
\<close>

definition best_move :: "(rat \<times> string) list \<Rightarrow> py_error + string" where
  "best_move scored =
     (case rev (sort scored) of [] \<Rightarrow> Inl IndexError | (score, mv) # _ \<Rightarrow> Inr mv)"

section \<open>safe.py\<close>

text \<open>\<^verbatim>\<open>largest_opp\<close>: a running maximum from 0 over the snakes whose id is not ours.\<close>

definition largest_opp_safe :: "game_state \<Rightarrow> int" where
  "largest_opp_safe gs =
     fold (\<lambda>s acc. if snake_id s \<noteq> snake_id (you gs) then max acc (snake_length s) else acc)
       (snakes (board gs)) 0"

definition avoid_safe :: "game_state \<Rightarrow> cell set" where
  "avoid_safe gs =
     (if snake_length (you gs) \<le> largest_opp_safe gs then next_heads_of_opponents gs else {})"

definition candidates_safe :: "game_state \<Rightarrow> (string \<times> cell) list" where
  "candidates_safe gs = candidates_with gs (avoid_safe gs)"

definition food_target_safe :: "game_state \<Rightarrow> cell option" where
  "food_target_safe gs =
     (let foods = food (board gs);
          want_food = (health (you gs) \<le> 50 \<and> 0 < length foods)
      in if want_food then nearest_food (head (you gs)) foods else None)"

definition toward :: "cell \<Rightarrow> cell option \<Rightarrow> cell \<Rightarrow> int" where
  "toward my_head food_target nxt =
     (case food_target of None \<Rightarrow> 0
      | Some t \<Rightarrow> manhattan my_head t - manhattan nxt t)"

text \<open>
  The score of one candidate, \<^verbatim>\<open>(space * 1.0) + (toward * 3.0) + random.random() * 0.01\<close>;
  \<open>jitter\<close> is the value of the call of \<^verbatim>\<open>random.random()\<close>.
\<close>

definition score_safe :: "game_state \<Rightarrow> cell \<Rightarrow> rat \<Rightarrow> py_error + rat" where
  "score_safe gs nxt jitter =
     (let space = flood_fill_size nxt (blocked_cells gs) (width (board gs)) (height (board gs)) 96;
          tw = toward (head (you gs)) (food_target_safe gs) nxt
      in and_then (py_float space) (\<lambda>a.
         and_then (py_float tw) (\<lambda>b.
         Inr (a * 1 + b * 3 + jitter * (1 / 100)))))"

definition scored_safe :: "game_state \<Rightarrow> (nat \<Rightarrow> rat) \<Rightarrow> py_error + (rat \<times> string) list" where
  "scored_safe gs rnd =
     map_err (\<lambda>(i, (mv, nxt)). and_then (score_safe gs nxt (rnd i)) (\<lambda>score. Inr (score, mv)))
       (enumerate 0 (candidates_safe gs))"

definition move_safe :: "game_state \<Rightarrow> (nat \<Rightarrow> rat) \<Rightarrow> py_error + string" where
  "move_safe gs rnd =
     (if body (you gs) = [] then Inl IndexError
      else if candidates_safe gs = [] then Inr ''down''
      else and_then (scored_safe gs rnd) best_move)"

section \<open>greedy.py\<close>

definition SPACE_LIMIT_greedy :: int where
  "SPACE_LIMIT_greedy = 120"

text \<open>
  One pass of the inner \<^verbatim>\<open>for\<close> loop of \<^verbatim>\<open>bfs_distance\<close>: \<open>Inl d\<close> is the
  \<^verbatim>\<open>return dist + 1\<close>, \<open>Inr (seen, q)\<close> the state after the loop.
\<close>

fun bfs_visit ::
  "(string \<times> (int \<times> int)) list \<Rightarrow> cell set \<Rightarrow> int \<Rightarrow> int \<Rightarrow> cell \<Rightarrow> cell \<Rightarrow> int
     \<Rightarrow> cell set \<times> (cell \<times> int) list \<Rightarrow> int + cell set \<times> (cell \<times> int) list" where
  "bfs_visit [] blocked w h target cur dis sq = Inr sq"
| "bfs_visit ((mv, d) # ds) blocked w h target cur dis (seen, q) =
     (let k = add cur d in
      if \<not> in_bounds k w h then bfs_visit ds blocked w h target cur dis (seen, q)
      else if k \<in> blocked \<or> k \<in> seen then bfs_visit ds blocked w h target cur dis (seen, q)
      else if k = target then Inl (dis + 1)
      else bfs_visit ds blocked w h target cur dis (insert k seen, q @ [(k, dis + 1)]))"

function bfs_loop ::
  "cell set \<Rightarrow> int \<Rightarrow> int \<Rightarrow> int \<Rightarrow> cell \<Rightarrow> cell set \<Rightarrow> (cell \<times> int) list \<Rightarrow> int \<Rightarrow> int option" where
  "bfs_loop blocked w h limit target seen q steps =
     (case q of
        [] \<Rightarrow> None
      | (cur, dis) # rest \<Rightarrow>
          if steps < limit
          then (case bfs_visit DIRECTIONS blocked w h target cur dis (seen, rest) of
                  Inl d \<Rightarrow> Some d
                | Inr (seen', q') \<Rightarrow> bfs_loop blocked w h limit target seen' q' (steps + 1))
          else None)"
  by pat_completeness auto
termination
  by (relation "measure (\<lambda>(blocked, w, h, limit, target, seen, q, steps). nat (limit - steps))") auto

definition bfs_distance :: "cell \<Rightarrow> cell \<Rightarrow> cell set \<Rightarrow> int \<Rightarrow> int \<Rightarrow> int \<Rightarrow> int option" where
  "bfs_distance start target blocked w h limit =
     (if start \<in> blocked \<or> target \<in> blocked then None
      else if start = target then Some 0
      else bfs_loop blocked w h limit target {start} [(start, 0)] 0)"

text \<open>\<^verbatim>\<open>opponents\<close>, \<^verbatim>\<open>opp_heads\<close> and \<^verbatim>\<open>largest_opp\<close> of greedy.py and aggressive.py.\<close>

definition opponents :: "game_state \<Rightarrow> snake list" where
  "opponents gs = filter (\<lambda>s. snake_id s \<noteq> snake_id (you gs)) (snakes (board gs))"

definition opp_heads :: "game_state \<Rightarrow> cell list" where
  "opp_heads gs = map head (opponents gs)"

text \<open>Python's \<^verbatim>\<open>max(xs, default=d)\<close> and \<^verbatim>\<open>min(xs, default=d)\<close>.\<close>

definition max_default :: "int list \<Rightarrow> int \<Rightarrow> int" where
  "max_default xs d = (case xs of [] \<Rightarrow> d | y # ys \<Rightarrow> fold max ys y)"

definition min_default :: "int list \<Rightarrow> int \<Rightarrow> int" where
  "min_default xs d = (case xs of [] \<Rightarrow> d | y # ys \<Rightarrow> fold min ys y)"

definition largest_opp :: "game_state \<Rightarrow> int" where
  "largest_opp gs = max_default (map snake_length (opponents gs)) 0"

text \<open>
  \<^verbatim>\<open>avoid_head\<close> (greedy.py, with \<^verbatim>\<open>HEAD_TIE_AVOID = True\<close>) and \<^verbatim>\<open>avoid_head_cells\<close>
  (aggressive.py, with \<^verbatim>\<open>HEAD_BUFFER_IF_SMALLER = True\<close>).
\<close>

definition avoid_head :: "game_state \<Rightarrow> cell set" where
  "avoid_head gs =
     (if True \<and> snake_length (you gs) \<le> largest_opp gs then next_heads_of_opponents gs else {})"

definition candidates_greedy :: "game_state \<Rightarrow> (string \<times> cell) list" where
  "candidates_greedy gs = candidates_with gs (avoid_head gs)"

text \<open>
  The loop over \<^verbatim>\<open>foods\<close> that keeps \<^verbatim>\<open>best_winnable\<close> and \<^verbatim>\<open>best_winnable_dist\<close>
  (both \<^verbatim>\<open>None\<close>, or both set).
\<close>

fun winnable_loop :: "cell \<Rightarrow> cell list \<Rightarrow> cell list \<Rightarrow> (cell \<times> int) option \<Rightarrow> (cell \<times> int) option" where
  "winnable_loop hd0 ohs [] best = best"
| "winnable_loop hd0 ohs (f # fs) best =
     (let d_me = manhattan hd0 f;
          d_opp_min = min_default (map (\<lambda>oh. manhattan oh f) ohs) 1000000
      in if d_me < d_opp_min
         then (case best of
                 None \<Rightarrow> winnable_loop hd0 ohs fs (Some (f, d_me))
               | Some (bf, bd) \<Rightarrow>
                   if d_me < bd then winnable_loop hd0 ohs fs (Some (f, d_me))
                   else winnable_loop hd0 ohs fs best)
         else winnable_loop hd0 ohs fs best)"

definition choose_target :: "cell \<Rightarrow> cell list \<Rightarrow> cell list \<Rightarrow> cell option" where
  "choose_target hd0 ohs foods =
     (if foods = [] then None
      else (case winnable_loop hd0 ohs foods None of
              Some (bf, bd) \<Rightarrow> Some bf
            | None \<Rightarrow> nearest_food hd0 foods))"

text \<open>
  \<^verbatim>\<open>food_score\<close>: \<^verbatim>\<open>FOOD_WEIGHT = 8.0\<close>, and \<^verbatim>\<open>d_now - d_next\<close> is an \<^verbatim>\<open>int\<close>.
\<close>

definition food_score_greedy :: "int option \<Rightarrow> int option \<Rightarrow> py_error + rat" where
  "food_score_greedy d_now d_next =
     (case (d_now, d_next) of
        (Some a, Some b) \<Rightarrow> and_then (py_float (a - b)) (\<lambda>x. Inr (x * 8))
      | (None, Some b) \<Rightarrow> Inr ((3 / 2) * 8)
      | _ \<Rightarrow> Inr 0)"

text \<open>
  The score of one candidate, with \<^verbatim>\<open>WINNABLE_FOOD_BONUS = 10.0\<close> and
  \<^verbatim>\<open>SPACE_WEIGHT = 0.8\<close>; \<open>jitter\<close> is the value of the call of \<^verbatim>\<open>random.random()\<close>.
\<close>

definition score_greedy :: "game_state \<Rightarrow> cell \<Rightarrow> rat \<Rightarrow> py_error + rat" where
  "score_greedy gs nxt jitter =
     (let w = width (board gs); h = height (board gs); blocked = blocked_cells gs;
          space = flood_fill_size nxt blocked w h SPACE_LIMIT_greedy;
          target = choose_target (head (you gs)) (opp_heads gs) (food (board gs))
      in and_then
           (case target of None \<Rightarrow> Inr 0
            | Some t \<Rightarrow> food_score_greedy
                (bfs_distance (head (you gs)) t blocked w h SPACE_LIMIT_greedy)
                (bfs_distance nxt t blocked w h SPACE_LIMIT_greedy))
           (\<lambda>food_score.
              let bonus = (case target of None \<Rightarrow> 0
                     | Some t \<Rightarrow>
                         if manhattan nxt t
                              < min_default (map (\<lambda>oh. manhattan oh t) (opp_heads gs)) 1000000
                         then 10 else 0)
              in and_then
                   (if space < 10 then and_then (py_float (10 - space)) (\<lambda>x. Inr (x * (8 / 10)))
                    else Inr 0)
                   (\<lambda>space_penalty.
                      Inr (food_score + bonus - space_penalty + jitter * (1 / 100)))))"

definition scored_greedy :: "game_state \<Rightarrow> (nat \<Rightarrow> rat) \<Rightarrow> py_error + (rat \<times> string) list" where
  "scored_greedy gs rnd =
     map_err (\<lambda>(i, (mv, nxt)). and_then (score_greedy gs nxt (rnd i)) (\<lambda>score. Inr (score, mv)))
       (enumerate 0 (candidates_greedy gs))"

definition move_greedy :: "game_state \<Rightarrow> (nat \<Rightarrow> rat) \<Rightarrow> py_error + string" where
  "move_greedy gs rnd =
     (if body (you gs) = [] then Inl IndexError
      else if candidates_greedy gs = [] then Inr ''down''
      else and_then (scored_greedy gs rnd) best_move)"

section \<open>aggressive.py\<close>

definition SPACE_LIMIT_aggressive :: int where
  "SPACE_LIMIT_aggressive = 96"

definition AGGRESSION :: rat where
  "AGGRESSION = 5 / 4"

definition food_target_aggressive :: "game_state \<Rightarrow> cell option" where
  "food_target_aggressive gs =
     (let foods = food (board gs);
          want_food = (health (you gs) \<le> 35 \<and> 0 < length foods)
      in if want_food then nearest_food (head (you gs)) foods else None)"

definition target_head :: "game_state \<Rightarrow> cell option" where
  "target_head gs =
     (if opp_heads gs \<noteq> [] then nearest_food (head (you gs)) (opp_heads gs) else None)"

text \<open>
  \<^verbatim>\<open>food_score\<close>: \<^verbatim>\<open>(d_now - d_next) * 2.5\<close> when there is a food target, \<^verbatim>\<open>0.0\<close> otherwise.
\<close>

definition food_score_aggressive :: "game_state \<Rightarrow> cell \<Rightarrow> py_error + rat" where
  "food_score_aggressive gs nxt =
     (case food_target_aggressive gs of
        None \<Rightarrow> Inr 0
      | Some t \<Rightarrow>
          and_then (py_float (manhattan (head (you gs)) t - manhattan nxt t))
            (\<lambda>x. Inr (x * (5 / 2))))"

text \<open>The block \<^verbatim>\<open>if target_head:\<close> of the scoring loop.\<close>

definition attack_head :: "game_state \<Rightarrow> cell \<Rightarrow> py_error + rat" where
  "attack_head gs nxt =
     (case target_head gs of
        None \<Rightarrow> Inr 0
      | Some th \<Rightarrow>
          let d_head_now = manhattan (head (you gs)) th;
              d_head_next = manhattan nxt th
          in and_then (py_float (d_head_now - d_head_next)) (\<lambda>x.
               let a = 0 + x * (3 / 2) * AGGRESSION
               in Inr (if d_head_next = 1
                       then fold (\<lambda>s acc. if head s = th \<and> snake_length (you gs) > snake_length s
                                          then acc + 8 * AGGRESSION else acc) (opponents gs) a
                       else a)))"

text \<open>The loop over the four cells next to an opponent's head that keeps \<^verbatim>\<open>min_space\<close>.\<close>

definition min_space :: "cell set \<Rightarrow> int \<Rightarrow> int \<Rightarrow> cell \<Rightarrow> int option" where
  "min_space sim_blocked w h oh =
     fold (\<lambda>(mv, d) ms.
            let cand = add oh d in
            if \<not> in_bounds cand w h then ms
            else if cand \<in> sim_blocked then ms
            else let ssz = flood_fill_size cand sim_blocked w h SPACE_LIMIT_aggressive in
                 (case ms of None \<Rightarrow> Some ssz
                  | Some m \<Rightarrow> if ssz < m then Some ssz else ms))
       DIRECTIONS None"

text \<open>
  The block \<^verbatim>\<open>if opponents:\<close> of the scoring loop, adding to \<^verbatim>\<open>attack_score\<close>:
  \<open>trap_loop\<close> is its loop over the opponents, with \<^verbatim>\<open>TRAP_RADIUS = 4\<close> and
  \<^verbatim>\<open>TRAP_SPACE_THRESH = 10\<close>; \<^verbatim>\<open>max(0, size_diff)\<close> is an \<^verbatim>\<open>int\<close>.
\<close>

fun trap_loop :: "game_state \<Rightarrow> cell \<Rightarrow> cell set \<Rightarrow> snake list \<Rightarrow> rat \<Rightarrow> py_error + rat" where
  "trap_loop gs nxt sim_blocked [] attack_score = Inr attack_score"
| "trap_loop gs nxt sim_blocked (opp # opps) attack_score =
     (if manhattan (head opp) nxt \<le> 4 then
        (case min_space sim_blocked (width (board gs)) (height (board gs)) (head opp) of
           None \<Rightarrow> trap_loop gs nxt sim_blocked opps attack_score
         | Some m \<Rightarrow>
             if m < 10
             then and_then (py_float (max 0 (snake_length (you gs) - snake_length opp))) (\<lambda>x.
                    trap_loop gs nxt sim_blocked opps (attack_score + (6 + x * (1 / 2)) * AGGRESSION))
             else trap_loop gs nxt sim_blocked opps attack_score)
      else trap_loop gs nxt sim_blocked opps attack_score)"

definition attack_trap :: "game_state \<Rightarrow> cell \<Rightarrow> rat \<Rightarrow> py_error + rat" where
  "attack_trap gs nxt a =
     (if opponents gs \<noteq> []
      then trap_loop gs nxt (insert nxt (blocked_cells gs)) (opponents gs) a
      else Inr a)"

text \<open>
  \<^verbatim>\<open>center_bias\<close>: \<^verbatim>\<open>width - 1\<close>, \<^verbatim>\<open>height - 1\<close> and the four coordinates are \<^verbatim>\<open>int\<close>s
  that meet a \<^verbatim>\<open>float\<close>.
\<close>

definition center_bias :: "game_state \<Rightarrow> cell \<Rightarrow> py_error + rat" where
  "center_bias gs nxt =
     and_then (py_float (width (board gs) - 1)) (\<lambda>wf.
     and_then (py_float (height (board gs) - 1)) (\<lambda>hf.
       let cx = wf / 2; cy = hf / 2 in
     and_then (py_float (fst (head (you gs)))) (\<lambda>hx.
     and_then (py_float (snd (head (you gs)))) (\<lambda>hy.
       let dist_center_now = \<bar>hx - cx\<bar> + \<bar>hy - cy\<bar> in
     and_then (py_float (fst nxt)) (\<lambda>nx.
     and_then (py_float (snd nxt)) (\<lambda>ny.
       let dist_center_next = \<bar>nx - cx\<bar> + \<bar>ny - cy\<bar> in
       Inr ((dist_center_now - dist_center_next) * (2 / 10))))))))"

text \<open>The score of one candidate; \<open>jitter\<close> is the value of the call of \<^verbatim>\<open>random.random()\<close>.\<close>

definition score_aggressive :: "game_state \<Rightarrow> cell \<Rightarrow> rat \<Rightarrow> py_error + rat" where
  "score_aggressive gs nxt jitter =
     (let space_score = flood_fill_size nxt (blocked_cells gs) (width (board gs)) (height (board gs))
                          SPACE_LIMIT_aggressive
      in and_then (food_score_aggressive gs nxt) (\<lambda>food_score.
         and_then (attack_head gs nxt) (\<lambda>a.
         and_then (attack_trap gs nxt a) (\<lambda>attack_score.
         and_then (center_bias gs nxt) (\<lambda>cb.
         and_then (py_float space_score) (\<lambda>sp.
         Inr (sp * 1 + food_score + attack_score + cb + jitter * (1 / 100))))))))"

definition scored_aggressive :: "game_state \<Rightarrow> (nat \<Rightarrow> rat) \<Rightarrow> py_error + (rat \<times> string) list" where
  "scored_aggressive gs rnd =
     map_err (\<lambda>(i, (mv, nxt)). and_then (score_aggressive gs nxt (rnd i)) (\<lambda>score. Inr (score, mv)))
       (enumerate 0 (candidates_greedy gs))"

definition move_aggressive :: "game_state \<Rightarrow> (nat \<Rightarrow> rat) \<Rightarrow> py_error + string" where
  "move_aggressive gs rnd =
     (if body (you gs) = [] then Inl IndexError
      else if candidates_greedy gs = [] then Inr ''down''
      else and_then (scored_aggressive gs rnd) best_move)"

section \<open>main.py\<close>

text \<open>
  \<^verbatim>\<open>heapq\<close> keeps a binary heap in a Python list. \<^verbatim>\<open>heappush\<close> adds an entry and
  \<^verbatim>\<open>heappop\<close> removes and returns the least entry (tuples compare lexicographically);
  which entry is popped depends on the entries held only, so the heap is a list of
  entries and a pop removes its minimum.
\<close>

definition heappush :: "(int \<times> cell) list \<Rightarrow> int \<times> cell \<Rightarrow> (int \<times> cell) list" where
  "heappush queue x = x # queue"

definition heappop :: "(int \<times> cell) list \<Rightarrow> (int \<times> cell) \<times> (int \<times> cell) list" where
  "heappop queue = (let m = fold min (tl queue) (hd queue) in (m, remove1 m queue))"

type_synonym dijkstra_state = "(cell \<rightharpoonup> int) \<times> (int \<times> cell) list \<times> (cell \<rightharpoonup> cell)"

text \<open>
  The body of the \<^verbatim>\<open>for\<close> loop of \<^verbatim>\<open>dijkstra\<close> for one delta, and the whole loop
  over the four neighbours of \<^verbatim>\<open>current\<close>.
\<close>

definition relax_step ::
  "int \<Rightarrow> int \<Rightarrow> cell set \<Rightarrow> int \<Rightarrow> cell \<Rightarrow> int \<times> int \<Rightarrow> dijkstra_state \<Rightarrow> dijkstra_state" where
  "relax_step w h dangers current_dist current d st =
     (case st of (distances, queue, came_from) \<Rightarrow>
        let neighbor = add current d in
        if in_bounds neighbor w h \<and> neighbor \<notin> dangers then
          let new_dist = current_dist + 1 in
          if (case distances neighbor of None \<Rightarrow> True | Some old \<Rightarrow> new_dist < old)
          then (distances(neighbor \<mapsto> new_dist), heappush queue (new_dist, neighbor),
                came_from(neighbor \<mapsto> current))
          else (distances, queue, came_from)
        else (distances, queue, came_from))"

definition relax :: "int \<Rightarrow> int \<Rightarrow> cell set \<Rightarrow> int \<Rightarrow> cell \<Rightarrow> dijkstra_state \<Rightarrow> dijkstra_state" where
  "relax w h dangers current_dist current st =
     fold (\<lambda>(mv, d) st'. relax_step w h dangers current_dist current d st') DIRECTIONS st"

text \<open>
  The inner \<^verbatim>\<open>while current != start\<close> loop that walks \<^verbatim>\<open>came_from\<close> back to the start;
  \<^verbatim>\<open>came_from[current]\<close> raises on a missing key. The result is the reversed path.
\<close>

partial_function (option) build_path ::
  "(cell \<rightharpoonup> cell) \<Rightarrow> cell \<Rightarrow> cell \<Rightarrow> cell list \<Rightarrow> (py_error + cell list) option" where
  "build_path came_from start current path =
     (if current \<noteq> start
      then (case came_from current of
              None \<Rightarrow> Some (Inl KeyError)
            | Some p \<Rightarrow> build_path came_from start p (path @ [current]))
      else Some (Inr (rev path)))"

declare build_path.simps [code]

text \<open>The \<^verbatim>\<open>while queue\<close> loop. \<open>None\<close> is a loop that does not end.\<close>

partial_function (option) dijkstra_loop ::
  "int \<Rightarrow> int \<Rightarrow> cell \<Rightarrow> cell set \<Rightarrow> cell list \<Rightarrow> dijkstra_state \<Rightarrow> (py_error + cell list) option" where
  "dijkstra_loop w h start dangers foods st =
     (case st of (distances, queue, came_from) \<Rightarrow>
        if queue = [] then Some (Inr [])
        else (case heappop queue of
                ((current_dist, current), queue') \<Rightarrow>
                  if current \<in> set foods then build_path came_from start current []
                  else dijkstra_loop w h start dangers foods
                         (relax w h dangers current_dist current (distances, queue', came_from))))"

declare dijkstra_loop.simps [code]

definition dijkstra :: "int \<Rightarrow> int \<Rightarrow> cell \<Rightarrow> cell set \<Rightarrow> cell list \<Rightarrow> (py_error + cell list) option" where
  "dijkstra w h start dangers foods =
     dijkstra_loop w h start dangers foods ([start \<mapsto> 0], [(0, start)], Map.empty)"

definition move_map :: "((int \<times> int) \<times> string) list" where
  "move_map = [((0, 1), ''up''), ((0, -1), ''down''), ((-1, 0), ''left''), ((1, 0), ''right'')]"

text \<open>The loop that builds \<^verbatim>\<open>safe_moves\<close>.\<close>

definition safe_moves :: "cell \<Rightarrow> int \<Rightarrow> int \<Rightarrow> cell set \<Rightarrow> string list" where
  "safe_moves head_pos w h dangers =
     map fst (filter (\<lambda>(move_dir, d). in_bounds (add head_pos d) w h \<and> add head_pos d \<notin> dangers)
                [(''up'', (0, 1)), (''down'', (0, -1)), (''left'', (-1, 0)), (''right'', (1, 0))])"

text \<open>\<^verbatim>\<open>move\<close> of main.py; \<^verbatim>\<open>body[0]\<close> raises on an empty body.\<close>

definition move_main :: "game_state \<Rightarrow> (py_error + string) option" where
  "move_main gs =
     (case body (you gs) of
        [] \<Rightarrow> Some (Inl IndexError)
      | head_pos # _ \<Rightarrow>
          let dangers = board_occupied_cells gs;
              foods = food (board gs);
              w = width (board gs);
              h = height (board gs)
          in (case dijkstra w h head_pos dangers foods of
                None \<Rightarrow> None
              | Some (Inl e) \<Rightarrow> Some (Inl e)
              | Some (Inr []) \<Rightarrow>
                  Some (Inr (case safe_moves head_pos w h dangers of [] \<Rightarrow> ''up'' | m # _ \<Rightarrow> m))
              | Some (Inr (next_pos # _)) \<Rightarrow>
                  (case map_of move_map (fst next_pos - fst head_pos, snd next_pos - snd head_pos) of
                     None \<Rightarrow> Some (Inl KeyError)
                   | Some m \<Rightarrow> Some (Inr m))))"

section \<open>Example snapshots\<close>

text \<open>
  An 11 by 11 board with the planner (length 3) in the corner (0,0) and one other snake of
  the same length in the opposite corner.
\<close>

definition ex_far_opponent :: game_state where
  "ex_far_opponent =
     \<lparr>board = \<lparr>width = 11, height = 11,
               snakes = [\<lparr>snake_id = ''me'', head = (0, 0), body = [(0, 0), (1, 0), (2, 0)],
                          snake_length = 3, health = 100\<rparr>,
                         \<lparr>snake_id = ''other'', head = (10, 10),
                          body = [(10, 10), (9, 10), (8, 10)], snake_length = 3, health = 100\<rparr>],
               food = []\<rparr>,
      you = \<lparr>snake_id = ''me'', head = (0, 0), body = [(0, 0), (1, 0), (2, 0)],
             snake_length = 3, health = 100\<rparr>\<rparr>"

text \<open>A 1 by 1 board filled by the planner: no cell next to the head is in bounds.\<close>

definition ex_boxed :: game_state where
  "ex_boxed =
     \<lparr>board = \<lparr>width = 1, height = 1,
               snakes = [\<lparr>snake_id = ''me'', head = (0, 0), body = [(0, 0)],
                          snake_length = 1, health = 100\<rparr>],
               food = []\<rparr>,
      you = \<lparr>snake_id = ''me'', head = (0, 0), body = [(0, 0)],
             snake_length = 1, health = 100\<rparr>\<rparr>"

text \<open>
  A 3 by 3 board with the planner alone, its head in the centre and its neck below, and one
  food in a corner.
\<close>

definition ex_small :: game_state where
  "ex_small =
     \<lparr>board = \<lparr>width = 3, height = 3,
               snakes = [\<lparr>snake_id = ''me'', head = (1, 1), body = [(1, 1), (1, 0)],
                          snake_length = 2, health = 100\<rparr>],
               food = [(0, 2)]\<rparr>,
      you = \<lparr>snake_id = ''me'', head = (1, 1), body = [(1, 1), (1, 0)],
             snake_length = 2, health = 100\<rparr>\<rparr>"

text \<open>
  An 11 by 11 board with the planner in the corner (0,0), its neck at (1,0), and another
  snake of the same length whose head at (1,1) is one step from the only free cell next
  to the planner's head, (0,1).
\<close>

definition ex_corner_opponent :: game_state where
  "ex_corner_opponent =
     \<lparr>board = \<lparr>width = 11, height = 11,
               snakes = [\<lparr>snake_id = ''me'', head = (0, 0), body = [(0, 0), (1, 0)],
                          snake_length = 2, health = 100\<rparr>,
                         \<lparr>snake_id = ''other'', head = (1, 1), body = [(1, 1), (1, 2)],
                          snake_length = 2, health = 100\<rparr>],
               food = []\<rparr>,
      you = \<lparr>snake_id = ''me'', head = (0, 0), body = [(0, 0), (1, 0)],
             snake_length = 2, health = 100\<rparr>\<rparr>"

text \<open>
  A board one cell wide and two cells high filled by the planner, head above neck.
\<close>

definition ex_column :: game_state where
  "ex_column =
     \<lparr>board = \<lparr>width = 1, height = 2,
               snakes = [\<lparr>snake_id = ''me'', head = (0, 1), body = [(0, 1), (0, 0)],
                          snake_length = 2, health = 100\<rparr>],
               food = []\<rparr>,
      you = \<lparr>snake_id = ''me'', head = (0, 1), body = [(0, 1), (0, 0)],
             snake_length = 2, health = 100\<rparr>\<rparr>"


text \<open>
  A 5 by 5 board with the planner (length 3, hungry) in the centre, its neck below, one
  food in a corner, and a shorter snake two cells to the right of the planner's head.
\<close>

definition ex_duel :: game_state where
  "ex_duel =
     \<lparr>board = \<lparr>width = 5, height = 5,
               snakes = [\<lparr>snake_id = ''me'', head = (2, 2), body = [(2, 2), (2, 1), (2, 0)],
                          snake_length = 3, health = 30\<rparr>,
                         \<lparr>snake_id = ''other'', head = (4, 2), body = [(4, 2), (4, 1)],
                          snake_length = 2, health = 100\<rparr>],
               food = [(0, 4)]\<rparr>,
      you = \<lparr>snake_id = ''me'', head = (2, 2), body = [(2, 2), (2, 1), (2, 0)],
             snake_length = 3, health = 30\<rparr>\<rparr>"

text \<open>
  A board one cell high and \<open>10^400\<close> cells wide, with the planner alone at its left end:
  head (1,0), neck (2,0), tail (3,0).
\<close>

definition ex_wide :: game_state where
  "ex_wide =
     \<lparr>board = \<lparr>width = 10 ^ 400, height = 1,
               snakes = [\<lparr>snake_id = ''me'', head = (1, 0), body = [(1, 0), (2, 0), (3, 0)],
                          snake_length = 3, health = 100\<rparr>],
               food = []\<rparr>,
      you = \<lparr>snake_id = ''me'', head = (1, 0), body = [(1, 0), (2, 0), (3, 0)],
             snake_length = 3, health = 100\<rparr>\<rparr>"

text \<open>
  A board one cell wide and two cells high filled by the planner, head below neck.
\<close>

definition ex_column_flipped :: game_state where
  "ex_column_flipped =
     \<lparr>board = \<lparr>width = 1, height = 2,
               snakes = [\<lparr>snake_id = ''me'', head = (0, 0), body = [(0, 0), (0, 1)],
                          snake_length = 2, health = 100\<rparr>],
               food = []\<rparr>,
      you = \<lparr>snake_id = ''me'', head = (0, 0), body = [(0, 0), (0, 1)],
             snake_length = 2, health = 100\<rparr>\<rparr>"
section \<open>Notions used to state and prove the properties\<close>

text \<open>
  A food cell is winnable when the planner's Manhattan distance to it is strictly less than
  every opponent head's Manhattan distance to it.
\<close>

definition winnable :: "cell \<Rightarrow> cell list \<Rightarrow> cell \<Rightarrow> bool" where
  "winnable hd0 ohs f \<longleftrightarrow> (\<forall>oh \<in> set ohs. manhattan hd0 f < manhattan oh f)"

text \<open>The test \<^verbatim>\<open>d_me < d_opp_min\<close> of greedy.py's target loop.\<close>

definition closer_than_opponents :: "cell \<Rightarrow> cell list \<Rightarrow> cell \<Rightarrow> bool" where
  "closer_than_opponents hd0 ohs f \<longleftrightarrow>
     manhattan hd0 f < min_default (map (\<lambda>oh. manhattan oh f) ohs) 1000000"

text \<open>
  The pair \<^verbatim>\<open>(best_winnable, best_winnable_dist)\<close> is sound when it holds a food that
  passed the test, with its own distance; \<open>next_best\<close> is one pass of the loop body.
\<close>

definition best_ok :: "cell \<Rightarrow> cell list \<Rightarrow> (cell \<times> int) option \<Rightarrow> bool" where
  "best_ok hd0 ohs best \<longleftrightarrow>
     (case best of None \<Rightarrow> True
      | Some (bf, bd) \<Rightarrow> bd = manhattan hd0 bf \<and> closer_than_opponents hd0 ohs bf)"

definition next_best :: "cell \<Rightarrow> cell list \<Rightarrow> cell \<Rightarrow> (cell \<times> int) option \<Rightarrow> (cell \<times> int) option" where
  "next_best hd0 ohs f best =
     (if closer_than_opponents hd0 ohs f
      then (case best of None \<Rightarrow> Some (f, manhattan hd0 f)
            | Some (bf, bd) \<Rightarrow> if manhattan hd0 f < bd then Some (f, manhattan hd0 f) else best)
      else best)"

text \<open>The four unit deltas of \<^verbatim>\<open>DIRECTIONS\<close>.\<close>

definition deltas :: "(int \<times> int) set" where
  "deltas = snd ` set DIRECTIONS"

text \<open>
  The invariant of the \<^verbatim>\<open>while queue\<close> loop of \<^verbatim>\<open>dijkstra\<close>: every queued cell has a
  distance not above its priority; no distance exceeds a queued priority by more than 1;
  distances are not negative; the cells with a distance are the start and the cells with
  a predecessor; and a predecessor is one step away, nearer to the start, and its
  successor is in bounds and not a danger.
\<close>

definition dijkstra_inv :: "int \<Rightarrow> int \<Rightarrow> cell \<Rightarrow> cell set \<Rightarrow> dijkstra_state \<Rightarrow> bool" where
  "dijkstra_inv w h start dangers st \<longleftrightarrow>
     (case st of (distances, queue, came_from) \<Rightarrow>
        (\<forall>(p, c) \<in> set queue. \<exists>v. distances c = Some v \<and> v \<le> p)
      \<and> (\<forall>(p, c) \<in> set queue. \<forall>c' v. distances c' = Some v \<longrightarrow> v \<le> p + 1)
      \<and> (\<forall>c v. distances c = Some v \<longrightarrow> 0 \<le> v)
      \<and> dom distances = insert start (dom came_from)
      \<and> start \<notin> dom came_from
      \<and> (\<forall>c p. came_from c = Some p \<longrightarrow>
            (\<exists>d \<in> deltas. c = add p d) \<and> in_bounds c w h \<and> c \<notin> dangers
            \<and> (\<exists>u v. distances p = Some u \<and> distances c = Some v \<and> u < v)))"

text \<open>The same inside the \<^verbatim>\<open>for\<close> loop, after the entry \<open>(p0, cur)\<close> has been popped.\<close>

definition relax_inv :: "int \<Rightarrow> int \<Rightarrow> cell \<Rightarrow> cell set \<Rightarrow> int \<Rightarrow> cell \<Rightarrow> dijkstra_state \<Rightarrow> bool" where
  "relax_inv w h start dangers p0 cur st \<longleftrightarrow>
     (case st of (distances, queue, came_from) \<Rightarrow>
        (\<forall>(p, c) \<in> set queue. \<exists>v. distances c = Some v \<and> v \<le> p)
      \<and> (\<forall>(p, c) \<in> set queue. p0 \<le> p)
      \<and> (\<forall>c v. distances c = Some v \<longrightarrow> v \<le> p0 + 1)
      \<and> (\<exists>v. distances cur = Some v \<and> v \<le> p0)
      \<and> (\<forall>c v. distances c = Some v \<longrightarrow> 0 \<le> v)
      \<and> dom distances = insert start (dom came_from)
      \<and> start \<notin> dom came_from
      \<and> (\<forall>c p. came_from c = Some p \<longrightarrow>
            (\<exists>d \<in> deltas. c = add p d) \<and> in_bounds c w h \<and> c \<notin> dangers
            \<and> (\<exists>u v. distances p = Some u \<and> distances c = Some v \<and> u < v)))"

text \<open>The number of queue entries plus the number of in-bounds cells without a distance.\<close>

definition dijkstra_measure :: "int \<Rightarrow> int \<Rightarrow> dijkstra_state \<Rightarrow> nat" where
  "dijkstra_measure w h st =
     (case st of (distances, queue, came_from) \<Rightarrow>
        length queue + card ({c. in_bounds c w h} - dom distances))"

text \<open>
  A path is empty, or its first cell is one step from the start, in bounds and not a
  danger.
\<close>

definition good_first_step :: "int \<Rightarrow> int \<Rightarrow> cell \<Rightarrow> cell set \<Rightarrow> cell list \<Rightarrow> bool" where
  "good_first_step w h start dangers path \<longleftrightarrow>
     (case path of [] \<Rightarrow> True
      | next_pos # _ \<Rightarrow>
          (\<exists>d \<in> deltas. next_pos = add start d) \<and> in_bounds next_pos w h \<and> next_pos \<notin> dangers)"

text \<open>The cell a move token leads to from a cell, and the four move tokens.\<close>

definition destination :: "cell \<Rightarrow> string \<Rightarrow> cell option" where
  "destination c m = map_option (add c) (map_of DIRECTIONS m)"

definition tokens :: "string set" where
  "tokens = {''up'', ''down'', ''left'', ''right''}"

text \<open>
  A cell is free when it is in bounds and not blocked. The cells reachable from a free
  start are those joined to it by a chain of unit steps through free cells; nothing is
  reachable from a start that is not free.
\<close>

definition free_cell :: "cell set \<Rightarrow> int \<Rightarrow> int \<Rightarrow> cell \<Rightarrow> bool" where
  "free_cell blocked w h c \<longleftrightarrow> in_bounds c w h \<and> c \<notin> blocked"

definition reachable_cells :: "cell set \<Rightarrow> int \<Rightarrow> int \<Rightarrow> cell \<Rightarrow> cell set" where
  "reachable_cells blocked w h start =
     (if free_cell blocked w h start
      then {c. (start, c) \<in> rtrancl {(a, b). free_cell blocked w h b \<and> b \<in> add a ` deltas}}
      else {})"

text \<open>
  The invariant of the \<^verbatim>\<open>while\<close> loop of \<^verbatim>\<open>flood_fill_size\<close>: the queue holds distinct
  seen cells, the seen cells are reachable, every free neighbour of a seen cell that has
  left the queue is seen, and \<^verbatim>\<open>count\<close> is the number of seen cells that have left the
  queue. \<open>visit_ok\<close> is the part of it that the inner loop needs.
\<close>

definition flood_inv :: "cell set \<Rightarrow> int \<Rightarrow> int \<Rightarrow> int \<Rightarrow> cell \<Rightarrow> cell set \<Rightarrow> cell list \<Rightarrow> int \<Rightarrow> bool" where
  "flood_inv blocked w h limit start seen q count \<longleftrightarrow>
     set q \<subseteq> seen \<and> distinct q \<and> start \<in> seen \<and> seen \<subseteq> reachable_cells blocked w h start
     \<and> (\<forall>c \<in> seen - set q. \<forall>d \<in> deltas. free_cell blocked w h (add c d) \<longrightarrow> add c d \<in> seen)
     \<and> count = int (card seen) - int (length q) \<and> count \<le> limit"

definition visit_ok :: "cell set \<Rightarrow> int \<Rightarrow> int \<Rightarrow> cell \<Rightarrow> cell set \<times> cell list \<Rightarrow> bool" where
  "visit_ok blocked w h start sq \<longleftrightarrow>
     (case sq of (seen, q) \<Rightarrow>
        set q \<subseteq> seen \<and> distinct q \<and> seen \<subseteq> reachable_cells blocked w h start)"

section \<open>Basic facts about the helpers\<close>

lemma head_steps_eq:
  "head_steps w h c A = A \<union> {k. \<exists>d \<in> snd ` set DIRECTIONS. k = add c d \<and> in_bounds k w h}"
  by (auto simp: head_steps_def DIRECTIONS_def)

lemma fold_head_steps:
  "fold (\<lambda>s danger. head_steps w h (head s) danger) ss A =
     A \<union> {k. \<exists>s \<in> set ss. \<exists>d \<in> snd ` set DIRECTIONS. k = add (head s) d \<and> in_bounds k w h}"
  by (induction ss arbitrary: A) (auto simp: head_steps_eq)

lemma next_heads_of_opponents_eq:
  "next_heads_of_opponents gs =
     {k. \<exists>s \<in> set (snakes (board gs)). \<exists>d \<in> snd ` set DIRECTIONS.
           k = add (head s) d \<and> in_bounds k (width (board gs)) (height (board gs))}"
  by (simp add: next_heads_of_opponents_def fold_head_steps)

lemma fold_insert_set: "fold insert xs A = A \<union> set xs"
  by (induction xs arbitrary: A) auto

lemma fold_bodies:
  "fold (\<lambda>s occ. fold insert (body s) occ) ss A = A \<union> (\<Union>s \<in> set ss. set (body s))"
  by (induction ss arbitrary: A) (auto simp: fold_insert_set)

lemma board_occupied_cells_eq:
  "board_occupied_cells gs = (\<Union>s \<in> set (snakes (board gs)). set (body s))"
  by (simp add: board_occupied_cells_def fold_bodies)

lemma fold_largest_mono:
  "a \<le> fold (\<lambda>s acc. if P s then max acc (f s) else acc) ss (a::int)"
proof (induction ss arbitrary: a)
  case Nil then show ?case by simp
next
  case (Cons x xs)
  have "a \<le> (if P x then max a (f x) else a)" by simp
  also have "\<dots> \<le> fold (\<lambda>s acc. if P s then max acc (f s) else acc) xs (if P x then max a (f x) else a)"
    by (rule Cons.IH)
  finally show ?case by simp
qed

lemma fold_largest_ge:
  "s \<in> set ss \<Longrightarrow> P s \<Longrightarrow> f s \<le> fold (\<lambda>s acc. if P s then max acc (f s) else acc) ss (a::int)"
proof (induction ss arbitrary: a)
  case Nil then show ?case by simp
next
  case (Cons x xs)
  show ?case
  proof (cases "s = x")
    case True
    have "f s \<le> max a (f x)" using True by simp
    also have "\<dots> \<le> fold (\<lambda>s acc. if P s then max acc (f s) else acc) xs (max a (f x))"
      by (rule fold_largest_mono)
    finally show ?thesis using True Cons.prems by simp
  next
    case False
    then have "s \<in> set xs" using Cons.prems by simp
    from Cons.IH[OF this Cons.prems(2)] show ?thesis by simp
  qed
qed

lemma largest_opp_safe_ge:
  "s \<in> set (snakes (board gs)) \<Longrightarrow> snake_id s \<noteq> snake_id (you gs) \<Longrightarrow>
     snake_length s \<le> largest_opp_safe gs"
  unfolding largest_opp_safe_def
  by (rule fold_largest_ge[where P = "\<lambda>s. snake_id s \<noteq> snake_id (you gs)"]) 

lemma fold_max_ge_init: "(a::int) \<le> fold max xs a"
proof (induction xs arbitrary: a)
  case Nil then show ?case by simp
next
  case (Cons x xs)
  have "a \<le> max x a" by simp
  also have "\<dots> \<le> fold max xs (max x a)" by (rule Cons.IH)
  finally show ?case by simp
qed

lemma fold_max_ge_mem: "x \<in> set xs \<Longrightarrow> (x::int) \<le> fold max xs a"
proof (induction xs arbitrary: a)
  case Nil then show ?case by simp
next
  case (Cons y ys)
  show ?case
  proof (cases "x = y")
    case True
    have "x \<le> max y a" using True by simp
    also have "\<dots> \<le> fold max ys (max y a)" by (rule fold_max_ge_init)
    finally show ?thesis by simp
  next
    case False
    then show ?thesis using Cons by simp
  qed
qed

lemma max_default_ge: "x \<in> set xs \<Longrightarrow> x \<le> max_default xs d"
  by (cases xs) (auto simp: max_default_def fold_max_ge_init fold_max_ge_mem)

lemma largest_opp_ge:
  "s \<in> set (snakes (board gs)) \<Longrightarrow> snake_id s \<noteq> snake_id (you gs) \<Longrightarrow>
     snake_length s \<le> largest_opp gs"
  unfolding largest_opp_def opponents_def
  by (rule max_default_ge) auto

lemma candidates_loop_empty:
  "(\<And>mv d. (mv, d) \<in> set ds \<Longrightarrow> in_bounds (add c d) w h \<Longrightarrow> add c d \<in> avoid) \<Longrightarrow>
     candidates_loop ds safe c w h blocked avoid = []"
proof (induction ds)
  case Nil then show ?case by simp
next
  case (Cons x ds)
  obtain mv d where x: "x = (mv, d)" by (cases x)
  have rest: "candidates_loop ds safe c w h blocked avoid = []"
  proof (rule Cons.IH)
    fix mv' d'
    assume "(mv', d') \<in> set ds" "in_bounds (add c d') w h"
    then show "add c d' \<in> avoid" using Cons.prems[of mv' d'] by simp
  qed
  have "in_bounds (add c d) w h \<Longrightarrow> add c d \<in> avoid"
    by (rule Cons.prems[of mv d]) (simp_all add: x)
  then show ?case by (auto simp: x rest Let_def)
qed

lemma candidates_with_own_head_avoided:
  assumes "\<exists>s \<in> set (snakes (board gs)). head s = head (you gs)"
  shows "candidates_with gs (next_heads_of_opponents gs) = []"
  unfolding candidates_with_def
proof (rule candidates_loop_empty)
  fix mv d
  assume d: "(mv, d) \<in> set DIRECTIONS"
    and b: "in_bounds (add (head (you gs)) d) (width (board gs)) (height (board gs))"
  from assms obtain s where s: "s \<in> set (snakes (board gs))" "head s = head (you gs)" by blast
  have "d \<in> snd ` set DIRECTIONS" using d by force
  then have "\<exists>s' \<in> set (snakes (board gs)). \<exists>d' \<in> snd ` set DIRECTIONS.
      add (head (you gs)) d = add (head s') d'
      \<and> in_bounds (add (head (you gs)) d) (width (board gs)) (height (board gs))"
    using s b by (intro bexI[of _ s] bexI[of _ d]) simp_all
  then show "add (head (you gs)) d \<in> next_heads_of_opponents gs"
    unfolding next_heads_of_opponents_eq by simp
qed

lemma min_default_Min:
  assumes "xs \<noteq> []"
  shows "min_default xs d = Min (set xs)"
proof (cases xs)
  case Nil then show ?thesis using assms by simp
next
  case (Cons a list)
  then show ?thesis using Min.set_eq_fold[of a list] by (simp add: min_default_def)
qed

lemma min_by_mem: "min_by key b xs \<in> set (b # xs)"
  by (induction xs arbitrary: b) auto

lemma min_by_le: "\<forall>x \<in> set (b # xs). key (min_by key b xs) \<le> key x"
proof (induction xs arbitrary: b)
  case Nil then show ?case by simp
next
  case (Cons y ys)
  let ?b' = "if key y < key b then y else b"
  have b': "key ?b' \<le> key b" "key ?b' \<le> key y" by auto
  have ih: "\<forall>x \<in> set (?b' # ys). key (min_by key ?b' ys) \<le> key x" by (rule Cons.IH)
  then have "key (min_by key ?b' ys) \<le> key ?b'" by simp
  then have "key (min_by key ?b' ys) \<le> key b" "key (min_by key ?b' ys) \<le> key y"
    using b' by linarith+
  then show ?case using ih by simp
qed

lemma nearest_food_least:
  assumes "foods \<noteq> []"
  shows "\<exists>t. nearest_food hd0 foods = Some t \<and> t \<in> set foods
          \<and> (\<forall>f \<in> set foods. manhattan hd0 t \<le> manhattan hd0 f)"
proof -
  obtain f fs where fs: "foods = f # fs" using assms by (cases foods) auto
  show ?thesis using min_by_mem[of "manhattan hd0" f fs] min_by_le[of f fs "manhattan hd0"]
    by (simp add: nearest_food_def fs)
qed

section \<open>The path finder of main.py\<close>

lemma finite_in_bounds: "finite {c. in_bounds c w h}"
proof -
  have "{c. in_bounds c w h} \<subseteq> {0..<w} \<times> {0..<h}"
    by (auto simp: in_bounds_def)
  then show ?thesis by (rule finite_subset) simp
qed

lemma heappop_props:
  assumes "queue \<noteq> []" and "heappop queue = (m, queue')"
  shows "m \<in> set queue" and "\<forall>x \<in> set queue. m \<le> x" and "set queue' \<subseteq> set queue"
    and "Suc (length queue') = length queue"
proof -
  obtain x xs where q: "queue = x # xs" using assms(1) by (cases queue) auto
  have f: "fold min (tl queue) (hd queue) = Min (set queue)"
    unfolding q using Min.set_eq_fold[of x xs] by simp
  have m: "m = Min (set queue)" and q': "queue' = remove1 m queue"
    using assms(2) unfolding heappop_def f Let_def by auto
  show min: "m \<in> set queue" unfolding m using assms(1) by (intro Min_in) simp_all
  show "\<forall>x \<in> set queue. m \<le> x" unfolding m by simp
  show "set queue' \<subseteq> set queue" unfolding q' by (rule set_remove1_subset)
  show "Suc (length queue') = length queue" unfolding q' using min assms(1)
    by (simp add: length_remove1)
qed

lemma relax_invD:
  assumes "relax_inv w h start dangers p0 cur (ds, q, cf)"
  shows "\<forall>(p, c) \<in> set q. \<exists>v. ds c = Some v \<and> v \<le> p"
    and "\<forall>(p, c) \<in> set q. p0 \<le> p"
    and "\<forall>c v. ds c = Some v \<longrightarrow> v \<le> p0 + 1"
    and "\<exists>v. ds cur = Some v \<and> v \<le> p0"
    and "\<forall>c v. ds c = Some v \<longrightarrow> 0 \<le> v"
    and "dom ds = insert start (dom cf)"
    and "start \<notin> dom cf"
    and "\<forall>c p. cf c = Some p \<longrightarrow>
            (\<exists>d \<in> deltas. c = add p d) \<and> in_bounds c w h \<and> c \<notin> dangers
            \<and> (\<exists>u v. ds p = Some u \<and> ds c = Some v \<and> u < v)"
  using assms unfolding relax_inv_def by (simp_all del: split_paired_All split_paired_Ex)

lemma relax_step_eq:
  assumes "relax_inv w h start dangers p0 cur (ds, q, cf)"
  shows "relax_step w h dangers p0 cur d (ds, q, cf) =
     (if in_bounds (add cur d) w h \<and> add cur d \<notin> dangers \<and> ds (add cur d) = None
      then (ds(add cur d \<mapsto> p0 + 1), heappush q (p0 + 1, add cur d), cf(add cur d \<mapsto> cur))
      else (ds, q, cf))"
proof (cases "ds (add cur d)")
  case None
  then show ?thesis by (auto simp: relax_step_def Let_def)
next
  case (Some old)
  then have "old \<le> p0 + 1" using relax_invD(3)[OF assms] by blast
  then show ?thesis using Some by (simp add: relax_step_def Let_def)
qed

lemma relax_step_inv:
  assumes "relax_inv w h start dangers p0 cur st" and "d \<in> deltas"
  shows "relax_inv w h start dangers p0 cur (relax_step w h dangers p0 cur d st)"
proof -
  obtain ds q cf where st: "st = (ds, q, cf)" by (cases st)
  note A = relax_invD[OF assms(1)[unfolded st]]
  let ?n = "add cur d"
  show ?thesis
  proof (cases "in_bounds ?n w h \<and> ?n \<notin> dangers \<and> ds ?n = None")
    case False
    then have "relax_step w h dangers p0 cur d st = st"
      unfolding st relax_step_eq[OF assms(1)[unfolded st]] by auto
    then show ?thesis using assms(1) by simp
  next
    case True
    then have eq: "relax_step w h dangers p0 cur d st =
        (ds(?n \<mapsto> p0 + 1), heappush q (p0 + 1, ?n), cf(?n \<mapsto> cur))"
      unfolding st relax_step_eq[OF assms(1)[unfolded st]] by simp
    from A(4) obtain vc where vc: "ds cur = Some vc" "vc \<le> p0" by blast
    then have ncur: "?n \<noteq> cur" using True by auto
    have "start \<in> dom ds" using A(6) by simp
    then have nstart: "?n \<noteq> start" using True by auto
    have ncf: "cf ?n = None" using A(6) True by auto
    have i1: "\<forall>(p, c) \<in> set (heappush q (p0 + 1, ?n)).
                \<exists>v. (ds(?n \<mapsto> p0 + 1)) c = Some v \<and> v \<le> p"
      using A(1) True by (fastforce simp: heappush_def)
    have i2: "\<forall>(p, c) \<in> set (heappush q (p0 + 1, ?n)). p0 \<le> p"
      using A(2) by (auto simp: heappush_def)
    have i3: "\<forall>c v. (ds(?n \<mapsto> p0 + 1)) c = Some v \<longrightarrow> v \<le> p0 + 1"
      using A(3) by auto
    have i4: "\<exists>v. (ds(?n \<mapsto> p0 + 1)) cur = Some v \<and> v \<le> p0"
      using vc ncur by simp
    have "0 \<le> vc" using A(5) vc by blast
    then have "0 \<le> p0 + 1" using vc(2) by simp
    then have i5: "\<forall>c v. (ds(?n \<mapsto> p0 + 1)) c = Some v \<longrightarrow> 0 \<le> v"
      using A(5) by auto
    have i6: "dom (ds(?n \<mapsto> p0 + 1)) = insert start (dom (cf(?n \<mapsto> cur)))"
      using A(6) by auto
    have i7: "start \<notin> dom (cf(?n \<mapsto> cur))"
      using A(7) nstart by auto
    have i8: "\<forall>c p. (cf(?n \<mapsto> cur)) c = Some p \<longrightarrow>
            (\<exists>d \<in> deltas. c = add p d) \<and> in_bounds c w h \<and> c \<notin> dangers
            \<and> (\<exists>u v. (ds(?n \<mapsto> p0 + 1)) p = Some u \<and> (ds(?n \<mapsto> p0 + 1)) c = Some v \<and> u < v)"
    proof (intro allI impI)
      fix c p assume a: "(cf(?n \<mapsto> cur)) c = Some p"
      show "(\<exists>d \<in> deltas. c = add p d) \<and> in_bounds c w h \<and> c \<notin> dangers
            \<and> (\<exists>u v. (ds(?n \<mapsto> p0 + 1)) p = Some u \<and> (ds(?n \<mapsto> p0 + 1)) c = Some v \<and> u < v)"
      proof (cases "c = ?n")
        case True
        then have "p = cur" using a by simp
        then show ?thesis using True \<open>in_bounds ?n w h \<and> ?n \<notin> dangers \<and> ds ?n = None\<close>
            assms(2) vc ncur by auto
      next
        case False
        then have cfc: "cf c = Some p" using a by simp
        from A(8)[rule_format, OF cfc] obtain u v where uv:
          "\<exists>d \<in> deltas. c = add p d" "in_bounds c w h" "c \<notin> dangers"
          "ds p = Some u" "ds c = Some v" "u < v" by blast
        have "p \<noteq> ?n" using uv(4) True by auto
        then show ?thesis using uv False by simp
      qed
    qed
    show ?thesis unfolding eq relax_inv_def using i1 i2 i3 i4 i5 i6 i7 i8
      by (simp del: split_paired_All split_paired_Ex)
  qed
qed

lemma relax_step_measure:
  assumes "relax_inv w h start dangers p0 cur st"
  shows "dijkstra_measure w h (relax_step w h dangers p0 cur d st) = dijkstra_measure w h st"
proof -
  obtain ds q cf where st: "st = (ds, q, cf)" by (cases st)
  let ?n = "add cur d"
  show ?thesis
  proof (cases "in_bounds ?n w h \<and> ?n \<notin> dangers \<and> ds ?n = None")
    case False
    then have "relax_step w h dangers p0 cur d st = st"
      unfolding st relax_step_eq[OF assms(1)[unfolded st]] by auto
    then show ?thesis by simp
  next
    case True
    then have eq: "relax_step w h dangers p0 cur d st =
        (ds(?n \<mapsto> p0 + 1), heappush q (p0 + 1, ?n), cf(?n \<mapsto> cur))"
      unfolding st relax_step_eq[OF assms(1)[unfolded st]] by simp
    let ?A = "{c. in_bounds c w h} - dom ds"
    have mem: "?n \<in> ?A" using True by auto
    have fin: "finite ?A" using finite_in_bounds by simp
    have "{c. in_bounds c w h} - dom (ds(?n \<mapsto> p0 + 1)) = ?A - {?n}" by auto
    then have "card ({c. in_bounds c w h} - dom (ds(?n \<mapsto> p0 + 1))) = card ?A - 1"
      using mem fin by simp
    moreover have "0 < card ?A" using mem fin by (auto simp: card_gt_0_iff)
    ultimately show ?thesis unfolding eq by (simp add: dijkstra_measure_def st heappush_def)
  qed
qed

lemma fold_relax_steps:
  assumes "relax_inv w h start dangers p0 cur st" and "snd ` set xs \<subseteq> deltas"
  shows "relax_inv w h start dangers p0 cur
           (fold (\<lambda>(mv, d) st'. relax_step w h dangers p0 cur d st') xs st)
       \<and> dijkstra_measure w h (fold (\<lambda>(mv, d) st'. relax_step w h dangers p0 cur d st') xs st)
           = dijkstra_measure w h st"
  using assms
proof (induction xs arbitrary: st)
  case Nil then show ?case by simp
next
  case (Cons x xs)
  obtain mv d where x: "x = (mv, d)" by (cases x)
  have d: "d \<in> deltas" using Cons.prems(2) x by auto
  have inv': "relax_inv w h start dangers p0 cur (relax_step w h dangers p0 cur d st)"
    by (rule relax_step_inv[OF Cons.prems(1) d])
  have m': "dijkstra_measure w h (relax_step w h dangers p0 cur d st) = dijkstra_measure w h st"
    by (rule relax_step_measure[OF Cons.prems(1)])
  have "snd ` set xs \<subseteq> deltas" using Cons.prems(2) by auto
  from Cons.IH[OF inv' this] show ?case using m' by (simp add: x)
qed

lemma relax_preserves:
  assumes "relax_inv w h start dangers p0 cur st"
  shows "relax_inv w h start dangers p0 cur (relax w h dangers p0 cur st)"
    and "dijkstra_measure w h (relax w h dangers p0 cur st) = dijkstra_measure w h st"
  using fold_relax_steps[OF assms, of DIRECTIONS] by (simp_all add: relax_def deltas_def)

lemma dijkstra_invD:
  assumes "dijkstra_inv w h start dangers (ds, q, cf)"
  shows "\<forall>(p, c) \<in> set q. \<exists>v. ds c = Some v \<and> v \<le> p"
    and "\<forall>(p, c) \<in> set q. \<forall>c' v. ds c' = Some v \<longrightarrow> v \<le> p + 1"
    and "\<forall>c v. ds c = Some v \<longrightarrow> 0 \<le> v"
    and "dom ds = insert start (dom cf)"
    and "start \<notin> dom cf"
    and "\<forall>c p. cf c = Some p \<longrightarrow>
            (\<exists>d \<in> deltas. c = add p d) \<and> in_bounds c w h \<and> c \<notin> dangers
            \<and> (\<exists>u v. ds p = Some u \<and> ds c = Some v \<and> u < v)"
  using assms unfolding dijkstra_inv_def by (simp_all del: split_paired_All split_paired_Ex)

lemma dijkstra_inv_initial:
  "dijkstra_inv w h start dangers ([start \<mapsto> 0], [(0, start)], Map.empty)"
  by (simp add: dijkstra_inv_def)

lemma pop_relax_inv:
  assumes inv: "dijkstra_inv w h start dangers (ds, q, cf)"
    and ne: "q \<noteq> []" and pop: "heappop q = ((p0, cur), q')"
  shows "relax_inv w h start dangers p0 cur (ds, q', cf)"
    and "dijkstra_measure w h (ds, q', cf) < dijkstra_measure w h (ds, q, cf)"
    and "\<exists>v. ds cur = Some v"
proof -
  note A = dijkstra_invD[OF inv]
  note H = heappop_props[OF ne pop]
  have mem: "(p0, cur) \<in> set q" by (rule H(1))
  from A(1) mem obtain vc where vc: "ds cur = Some vc" "vc \<le> p0" by blast
  show "\<exists>v. ds cur = Some v" using vc by blast
  have j1: "\<forall>(p, c) \<in> set q'. \<exists>v. ds c = Some v \<and> v \<le> p"
    using A(1) H(3) by blast
  have j2: "\<forall>(p, c) \<in> set q'. p0 \<le> p"
  proof clarify
    fix p c assume "(p, c) \<in> set q'"
    then have "(p, c) \<in> set q" using H(3) by blast
    then have "(p0, cur) \<le> (p, c)" using H(2) by blast
    then show "p0 \<le> p" by (auto simp: less_eq_prod_def)
  qed
  have j3: "\<forall>c v. ds c = Some v \<longrightarrow> v \<le> p0 + 1"
    using A(2) mem by blast
  show "relax_inv w h start dangers p0 cur (ds, q', cf)"
    unfolding relax_inv_def using j1 j2 j3 vc A(3,4,5,6)
    by (simp del: split_paired_All split_paired_Ex)
  show "dijkstra_measure w h (ds, q', cf) < dijkstra_measure w h (ds, q, cf)"
    using H(4) by (simp add: dijkstra_measure_def)
qed

lemma relax_inv_dijkstra_inv:
  assumes "relax_inv w h start dangers p0 cur st"
  shows "dijkstra_inv w h start dangers st"
proof -
  obtain ds q cf where st: "st = (ds, q, cf)" by (cases st)
  note A = relax_invD[OF assms[unfolded st]]
  have "\<forall>(p, c) \<in> set q. \<forall>c' v. ds c' = Some v \<longrightarrow> v \<le> p + 1"
  proof clarify
    fix p c c' v assume "(p, c) \<in> set q" "ds c' = Some v"
    then have "p0 \<le> p" "v \<le> p0 + 1" using A(2,3) by blast+
    then show "v \<le> p + 1" by simp
  qed
  then show ?thesis unfolding st dijkstra_inv_def using A(1,5,6,7,8)
    by (simp del: split_paired_All split_paired_Ex)
qed

lemma build_path_chain:
  assumes inv: "dijkstra_inv w h start dangers (ds, q, cf)" and c: "ds c = Some v"
  shows "\<exists>ch. build_path cf start c acc = Some (Inr (rev (acc @ ch)))
           \<and> (ch = [] \<longleftrightarrow> c = start) \<and> (ch \<noteq> [] \<longrightarrow> cf (last ch) = Some start)"
  using c
proof (induction "nat v" arbitrary: c v acc rule: less_induct)
  case less
  note A = dijkstra_invD[OF inv]
  show ?case
  proof (cases "c = start")
    case True
    then show ?thesis by (intro exI[of _ "[]"]) (simp add: build_path.simps[of cf start start])
  next
    case False
    then have "c \<in> dom cf" using A(4) less.prems by auto
    then obtain p where p: "cf c = Some p" by blast
    from A(6)[rule_format, OF p] less.prems obtain u where u: "ds p = Some u" "u < v" by auto
    have "0 \<le> u" using A(3) u(1) by blast
    then have "nat u < nat v" using u(2) by simp
    from less.hyps[OF this u(1), of "acc @ [c]"] obtain ch where ch:
      "build_path cf start p (acc @ [c]) = Some (Inr (rev ((acc @ [c]) @ ch)))"
      "ch = [] \<longleftrightarrow> p = start" "ch \<noteq> [] \<longrightarrow> cf (last ch) = Some start" by blast
    have "build_path cf start c acc = Some (Inr (rev (acc @ (c # ch))))"
      using False p ch(1) by (simp add: build_path.simps[of cf start c])
    moreover have "cf (last (c # ch)) = Some start"
      using ch(2,3) p by (cases "ch = []") simp_all
    ultimately show ?thesis using False by (intro exI[of _ "c # ch"]) simp
  qed
qed

lemma build_path_good:
  assumes inv: "dijkstra_inv w h start dangers (ds, q, cf)" and c: "ds c = Some v"
  shows "\<exists>r. build_path cf start c [] = Some (Inr r) \<and> good_first_step w h start dangers r"
proof -
  from build_path_chain[OF inv c, of "[]"] obtain ch where ch:
    "build_path cf start c [] = Some (Inr (rev ch))"
    "ch \<noteq> [] \<longrightarrow> cf (last ch) = Some start" by auto
  have "good_first_step w h start dangers (rev ch)"
  proof (cases "ch = []")
    case True then show ?thesis by (simp add: good_first_step_def)
  next
    case False
    then have l: "cf (last ch) = Some start" using ch(2) by simp
    obtain x xs where r: "rev ch = x # xs" using False by (cases "rev ch") auto
    have x: "x = last ch" using r False by (metis hd_rev list.sel(1))
    have "(\<exists>d \<in> deltas. x = add start d) \<and> in_bounds x w h \<and> x \<notin> dangers"
      using dijkstra_invD(6)[OF inv, rule_format, OF l] x by simp
    then show ?thesis unfolding good_first_step_def r by simp
  qed
  then show ?thesis using ch(1) by blast
qed

lemma dijkstra_loop_returns:
  assumes "dijkstra_inv w h start dangers st"
  shows "\<exists>r. dijkstra_loop w h start dangers foods st = Some (Inr r)
           \<and> good_first_step w h start dangers r"
  using assms
proof (induction "dijkstra_measure w h st" arbitrary: st rule: less_induct)
  case less
  obtain ds q cf where st: "st = (ds, q, cf)" by (cases st)
  show ?case
  proof (cases "q = []")
    case True
    then show ?thesis
      by (simp add: st dijkstra_loop.simps[of w h start dangers foods "(ds, [], cf)"]
          good_first_step_def)
  next
    case False
    obtain p0 cur q' where pop: "heappop q = ((p0, cur), q')"
      by (metis prod.exhaust)
    note P = pop_relax_inv[OF less.prems[unfolded st] False pop]
    show ?thesis
    proof (cases "cur \<in> set foods")
      case True
      from P(3) obtain v where "ds cur = Some v" by blast
      from build_path_good[OF less.prems[unfolded st] this]
      show ?thesis using True False pop
        by (simp add: st dijkstra_loop.simps[of w h start dangers foods "(ds, q, cf)"])
    next
      case nf: False
      let ?st' = "relax w h dangers p0 cur (ds, q', cf)"
      have inv': "dijkstra_inv w h start dangers ?st'"
        by (rule relax_inv_dijkstra_inv[OF relax_preserves(1)[OF P(1)]])
      have "dijkstra_measure w h ?st' < dijkstra_measure w h st"
        using relax_preserves(2)[OF P(1)] P(2) by (simp add: st)
      from less.hyps[OF this inv'] show ?thesis using nf False pop
        by (simp add: st dijkstra_loop.simps[of w h start dangers foods "(ds, q, cf)"])
    qed
  qed
qed

lemma dijkstra_returns:
  "\<exists>r. dijkstra w h start dangers foods = Some (Inr r) \<and> good_first_step w h start dangers r"
  unfolding dijkstra_def by (rule dijkstra_loop_returns[OF dijkstra_inv_initial])

section \<open>What the move functions return\<close>

lemma map_of_DIRECTIONS_iff: "map_of DIRECTIONS mv = Some d \<longleftrightarrow> (mv, d) \<in> set DIRECTIONS"
  by (rule map_of_eq_Some_iff) (simp add: DIRECTIONS_def)

lemma DIRECTIONS_tokens: "(mv, d) \<in> set DIRECTIONS \<Longrightarrow> mv \<in> tokens \<and> d \<in> deltas"
  by (auto simp: DIRECTIONS_def tokens_def deltas_def)

lemma candidates_loop_filter:
  "candidates_loop ds safe c w h blocked avoid =
     map (\<lambda>(mv, d). (mv, add c d))
       (filter (\<lambda>(mv, d). safe mv \<and> in_bounds (add c d) w h \<and> add c d \<notin> blocked
                  \<and> add c d \<notin> avoid) ds)"
proof (induction ds)
  case Nil then show ?case by simp
next
  case (Cons x ds)
  obtain mv' d' where x: "x = (mv', d')" by (cases x)
  show ?case unfolding x by (simp add: Let_def Cons.IH)
qed

lemma candidates_loop_mem:
  "(mv, nxt) \<in> set (candidates_loop ds safe c w h blocked avoid) \<longleftrightarrow>
     (\<exists>d. (mv, d) \<in> set ds \<and> nxt = add c d \<and> safe mv \<and> in_bounds nxt w h
          \<and> nxt \<notin> blocked \<and> nxt \<notin> avoid)"
  unfolding candidates_loop_filter by (simp add: image_iff Bex_def) blast

lemma candidates_with_mem:
  "(mv, nxt) \<in> set (candidates_with gs avoid) \<longleftrightarrow>
     (\<exists>d. (mv, d) \<in> set DIRECTIONS \<and> nxt = add (head (you gs)) d
          \<and> neck_check (head (you gs)) (body (you gs)) mv
          \<and> in_bounds nxt (width (board gs)) (height (board gs))
          \<and> nxt \<notin> blocked_cells gs \<and> nxt \<notin> avoid)"
  by (simp add: candidates_with_def candidates_loop_mem)

lemma best_move_mem:
  assumes "scored \<noteq> []"
  shows "\<exists>s mv. best_move scored = Inr mv \<and> (s, mv) \<in> set scored"
proof -
  have "rev (sort scored) \<noteq> []" using assms by (metis length_0_conv length_rev length_sort)
  then obtain x xs where r: "rev (sort scored) = x # xs" by (cases "rev (sort scored)") auto
  obtain s mv where x: "x = (s, mv)" by (cases x)
  have "x \<in> set (rev (sort scored))" unfolding r by simp
  then have "(s, mv) \<in> set scored" using x by simp
  then show ?thesis using r x by (auto simp: best_move_def)
qed

lemma best_move_of_candidates:
  assumes "cands \<noteq> []"
  shows "\<exists>mv nxt. best_move (map (\<lambda>(i, (mv, nxt)). (f i nxt, mv)) (enumerate 0 cands)) = Inr mv
           \<and> (mv, nxt) \<in> set cands"
proof -
  let ?sc = "map (\<lambda>(i, (mv, nxt)). (f i nxt, mv)) (enumerate 0 cands)"
  have "?sc \<noteq> []" using assms by (cases cands) simp_all
  from best_move_mem[OF this] obtain s mv where b: "best_move ?sc = Inr mv" "(s, mv) \<in> set ?sc"
    by blast
  from b(2) obtain i mv' nxt where "(i, (mv', nxt)) \<in> set (enumerate 0 cands)" "mv = mv'"
    by auto
  then have "i < length cands" "cands ! i = (mv, nxt)" by (auto simp: in_set_enumerate_eq)
  then have "(mv, nxt) \<in> set cands" by (metis nth_mem)
  then show ?thesis using b(1) by blast
qed

lemma candidate_props:
  assumes "(mv, nxt) \<in> set (candidates_with gs avoid)"
  shows "mv \<in> tokens" and "destination (head (you gs)) mv = Some nxt"
    and "neck_check (head (you gs)) (body (you gs)) mv"
    and "in_bounds nxt (width (board gs)) (height (board gs))"
    and "nxt \<notin> blocked_cells gs" and "nxt \<notin> avoid"
proof -
  from assms obtain d where d: "(mv, d) \<in> set DIRECTIONS" "nxt = add (head (you gs)) d"
    "neck_check (head (you gs)) (body (you gs)) mv"
    "in_bounds nxt (width (board gs)) (height (board gs))"
    "nxt \<notin> blocked_cells gs" "nxt \<notin> avoid"
    unfolding candidates_with_mem by blast
  show "mv \<in> tokens" using DIRECTIONS_tokens[OF d(1)] by simp
  show "destination (head (you gs)) mv = Some nxt"
    using d(1,2) by (simp add: destination_def map_of_DIRECTIONS_iff[symmetric])
  show "neck_check (head (you gs)) (body (you gs)) mv" by (rule d(3))
  show "in_bounds nxt (width (board gs)) (height (board gs))" by (rule d(4))
  show "nxt \<notin> blocked_cells gs" by (rule d(5))
  show "nxt \<notin> avoid" by (rule d(6))
qed

lemma neck_check_not_onto_neck:
  assumes "2 \<le> length bd" and "(mv, d) \<in> set DIRECTIONS" and "neck_check c bd mv"
  shows "add c d \<noteq> bd ! 1"
proof
  assume e: "add c d = bd ! 1"
  from assms(2) consider "mv = ''up''" "d = (0, 1)" | "mv = ''down''" "d = (0, -1)"
    | "mv = ''left''" "d = (-1, 0)" | "mv = ''right''" "d = (1, 0)"
    by (auto simp: DIRECTIONS_def)
  then have "\<not> neck_check c bd mv"
  proof cases
    case 1
    then have "snd (bd ! 1) > snd c" using e[symmetric] by (simp add: add_def)
    then show ?thesis using assms(1) 1 by (simp add: neck_check_def Let_def)
  next
    case 2
    then have "snd (bd ! 1) < snd c" "\<not> snd (bd ! 1) > snd c" using e[symmetric] by (auto simp: add_def)
    then show ?thesis using assms(1) 2 by (simp add: neck_check_def Let_def)
  next
    case 3
    then have "fst (bd ! 1) < fst c" "\<not> fst (bd ! 1) > fst c"
      "\<not> snd (bd ! 1) > snd c" "\<not> snd (bd ! 1) < snd c" using e[symmetric] by (auto simp: add_def)
    then show ?thesis using assms(1) 3 by (simp add: neck_check_def Let_def)
  next
    case 4
    then have "\<not> fst (bd ! 1) < fst c" "fst (bd ! 1) > fst c"
      "\<not> snd (bd ! 1) > snd c" "\<not> snd (bd ! 1) < snd c" using e[symmetric] by (auto simp: add_def)
    then show ?thesis using assms(1) 4 by (simp add: neck_check_def Let_def)
  qed
  then show False using assms(3) by simp
qed

lemma safe_moves_mem:
  "m \<in> set (safe_moves c w h dangers) \<longleftrightarrow>
     (\<exists>d. (m, d) \<in> set DIRECTIONS \<and> in_bounds (add c d) w h \<and> add c d \<notin> dangers)"
proof -
  have "safe_moves c w h dangers =
      map fst (filter (\<lambda>(move_dir, d). in_bounds (add c d) w h \<and> add c d \<notin> dangers) DIRECTIONS)"
    by (simp only: safe_moves_def DIRECTIONS_def)
  then show ?thesis by (simp add: image_iff Bex_def)
qed

lemma move_main_empty_path:
  assumes "body (you gs) = c # cs"
    and "dijkstra (width (board gs)) (height (board gs)) c (board_occupied_cells gs)
           (food (board gs)) = Some (Inr [])"
  shows "move_main gs = Some (Inr (case safe_moves c (width (board gs)) (height (board gs))
            (board_occupied_cells gs) of [] \<Rightarrow> ''up'' | m # _ \<Rightarrow> m))"
  by (simp add: move_main_def Let_def assms)

lemma move_main_path:
  assumes "body (you gs) = c # cs"
    and "dijkstra (width (board gs)) (height (board gs)) c (board_occupied_cells gs)
           (food (board gs)) = Some (Inr (x # xs))"
  shows "move_main gs = (case map_of move_map (fst x - fst c, snd x - snd c) of
           None \<Rightarrow> Some (Inl KeyError) | Some m \<Rightarrow> Some (Inr m))"
  by (simp add: move_main_def Let_def assms)

lemma move_map_delta:
  assumes "d \<in> deltas"
  shows "\<exists>m. (m, d) \<in> set DIRECTIONS \<and> map_of move_map d = Some m"
proof -
  from assms consider "d = (0, 1)" | "d = (0, -1)" | "d = (-1, 0)" | "d = (1, 0)"
    by (auto simp: deltas_def DIRECTIONS_def)
  then show ?thesis by cases (simp_all add: DIRECTIONS_def move_map_def)
qed

lemma move_main_result:
  assumes b: "body (you gs) = c # cs"
  shows "\<exists>m. move_main gs = Some (Inr m) \<and> m \<in> tokens
           \<and> (safe_moves c (width (board gs)) (height (board gs)) (board_occupied_cells gs) \<noteq> [] \<longrightarrow>
                (\<exists>nxt. destination c m = Some nxt
                   \<and> in_bounds nxt (width (board gs)) (height (board gs))
                   \<and> nxt \<notin> board_occupied_cells gs))"
proof -
  let ?w = "width (board gs)" and ?h = "height (board gs)" and ?D = "board_occupied_cells gs"
  obtain r where r: "dijkstra ?w ?h c ?D (food (board gs)) = Some (Inr r)"
    "good_first_step ?w ?h c ?D r" using dijkstra_returns by blast
  show ?thesis
  proof (cases r)
    case Nil
    note e = move_main_empty_path[OF b r(1)[unfolded Nil]]
    show ?thesis
    proof (cases "safe_moves c ?w ?h ?D")
      case sNil: Nil
      have "move_main gs = Some (Inr ''up'')" unfolding e sNil by simp
      moreover have "''up'' \<in> tokens" by (simp add: tokens_def)
      ultimately show ?thesis using sNil by simp
    next
      case (Cons m ms)
      then have "m \<in> set (safe_moves c ?w ?h ?D)" by simp
      then obtain d where d: "(m, d) \<in> set DIRECTIONS" "in_bounds (add c d) ?w ?h" "add c d \<notin> ?D"
        unfolding safe_moves_mem by blast
      have dest: "destination c m = Some (add c d)"
        using d(1) by (simp add: destination_def map_of_DIRECTIONS_iff[symmetric])
      have res: "move_main gs = Some (Inr m)" unfolding e Cons by simp
      have tok: "m \<in> tokens" using DIRECTIONS_tokens[OF d(1)] by simp
      show ?thesis
        by (intro exI[of _ m] conjI impI exI[of _ "add c d"] res tok dest d(2) d(3))
    qed
  next
    case (Cons x xs)
    note e = move_main_path[OF b r(1)[unfolded Cons]]
    have g: "(\<exists>d \<in> deltas. x = add c d) \<and> in_bounds x ?w ?h \<and> x \<notin> ?D"
      using r(2) unfolding Cons good_first_step_def by simp
    then obtain d where d: "d \<in> deltas" "x = add c d" by blast
    have diff: "(fst x - fst c, snd x - snd c) = d" unfolding d(2) by (simp add: add_def)
    obtain m where m: "(m, d) \<in> set DIRECTIONS" "map_of move_map d = Some m"
      using move_map_delta[OF d(1)] by blast
    have dest: "destination c m = Some x"
      using m(1) d(2) by (simp add: destination_def map_of_DIRECTIONS_iff[symmetric])
    have res: "move_main gs = Some (Inr m)" unfolding e diff m(2) by simp
    have tok: "m \<in> tokens" using DIRECTIONS_tokens[OF m(1)] by simp
    show ?thesis using g
      by (intro exI[of _ m] conjI impI exI[of _ x] res tok dest) simp_all
  qed
qed

lemma fold_largest_less:
  "(\<And>s. s \<in> set ss \<Longrightarrow> P s \<Longrightarrow> f s < b) \<Longrightarrow> a < b \<Longrightarrow>
     fold (\<lambda>s acc. if P s then max acc (f s) else acc) ss (a::int) < b"
proof (induction ss arbitrary: a)
  case Nil then show ?case by simp
next
  case (Cons x xs)
  have "(if P x then max a (f x) else a) < b" using Cons.prems by auto
  then have "fold (\<lambda>s acc. if P s then max acc (f s) else acc) xs (if P x then max a (f x) else a) < b"
    using Cons.prems(1) by (intro Cons.IH) auto
  then show ?case by simp
qed

lemma fold_max_less: "(\<And>x. x \<in> set xs \<Longrightarrow> x < b) \<Longrightarrow> a < b \<Longrightarrow> fold max xs (a::int) < b"
  by (induction xs arbitrary: a) auto

lemma no_avoidance_when_strictly_longest:
  assumes "\<forall>s \<in> set (snakes (board gs)).
             snake_id s \<noteq> snake_id (you gs) \<longrightarrow> snake_length s < snake_length (you gs)"
    and "0 < snake_length (you gs)"
  shows "avoid_safe gs = {}" and "avoid_head gs = {}"
proof -
  have "largest_opp_safe gs < snake_length (you gs)"
    unfolding largest_opp_safe_def
    by (rule fold_largest_less[where P = "\<lambda>s. snake_id s \<noteq> snake_id (you gs)"])
       (use assms in auto)
  then show "avoid_safe gs = {}" by (simp add: avoid_safe_def)
  have "largest_opp gs < snake_length (you gs)"
  proof (cases "map snake_length (opponents gs)")
    case Nil
    then show ?thesis using assms(2) by (simp add: largest_opp_def max_default_def)
  next
    case (Cons l ls)
    have "\<And>x. x \<in> set (l # ls) \<Longrightarrow> x < snake_length (you gs)"
      unfolding Cons[symmetric] using assms(1) by (auto simp: opponents_def)
    then have "fold max ls l < snake_length (you gs)" by (intro fold_max_less) auto
    then show ?thesis by (simp add: largest_opp_def max_default_def Cons)
  qed
  then show "avoid_head gs = {}" by (simp add: avoid_head_def)
qed

lemma candidates_with_nonempty:
  assumes "(mv, d) \<in> set DIRECTIONS" and "neck_check (head (you gs)) (body (you gs)) mv"
    and "in_bounds (add (head (you gs)) d) (width (board gs)) (height (board gs))"
    and "add (head (you gs)) d \<notin> blocked_cells gs" and "add (head (you gs)) d \<notin> avoid"
  shows "candidates_with gs avoid \<noteq> []"
proof -
  have "(mv, add (head (you gs)) d) \<in> set (candidates_with gs avoid)"
    unfolding candidates_with_mem using assms by blast
  then show ?thesis by auto
qed

section \<open>The space estimator\<close>

lemma reachable_subset_bounds: "reachable_cells blocked w h start \<subseteq> {c. in_bounds c w h}"
proof
  fix c assume c: "c \<in> reachable_cells blocked w h start"
  then have f: "free_cell blocked w h start"
    and r: "(start, c) \<in> rtrancl {(a, b). free_cell blocked w h b \<and> b \<in> add a ` deltas}"
    by (auto simp: reachable_cells_def split: if_splits)
  from r show "c \<in> {c. in_bounds c w h}"
    by (cases rule: rtranclE) (use f in \<open>auto simp: free_cell_def\<close>)
qed

lemma finite_reachable: "finite (reachable_cells blocked w h start)"
  by (rule finite_subset[OF reachable_subset_bounds finite_in_bounds])

lemma reachable_step:
  assumes "c \<in> reachable_cells blocked w h start" and "d \<in> deltas"
    and "free_cell blocked w h (add c d)"
  shows "add c d \<in> reachable_cells blocked w h start"
proof -
  let ?E = "{(a, b). free_cell blocked w h b \<and> b \<in> add a ` deltas}"
  from assms(1) have f: "free_cell blocked w h start" and r: "(start, c) \<in> rtrancl ?E"
    by (auto simp: reachable_cells_def split: if_splits)
  have "(c, add c d) \<in> ?E" using assms(2,3) by auto
  then have "(start, add c d) \<in> rtrancl ?E" using r by (rule rtrancl_into_rtrancl[rotated])
  then show ?thesis using f by (simp add: reachable_cells_def)
qed

lemma closed_contains_reachable:
  assumes "start \<in> S"
    and "\<forall>c \<in> S. \<forall>d \<in> deltas. free_cell blocked w h (add c d) \<longrightarrow> add c d \<in> S"
  shows "reachable_cells blocked w h start \<subseteq> S"
proof
  let ?E = "{(a, b). free_cell blocked w h b \<and> b \<in> add a ` deltas}"
  fix c assume "c \<in> reachable_cells blocked w h start"
  then have r: "(start, c) \<in> rtrancl ?E"
    by (auto simp: reachable_cells_def split: if_splits)
  from r show "c \<in> S"
  proof (induction rule: rtrancl_induct)
    case base
    then show ?case by (rule assms(1))
  next
    case (step y z)
    then obtain d where "d \<in> deltas" "z = add y d" "free_cell blocked w h z" by auto
    then show ?case using assms(2) step.IH by blast
  qed
qed

lemma visit_step_props:
  assumes ok: "visit_ok blocked w h start (seen, q)"
    and cur: "cur \<in> reachable_cells blocked w h start" and d: "d \<in> deltas"
    and res: "visit_step blocked w h cur d (seen, q) = (seen', q')"
  shows "visit_ok blocked w h start (seen', q') \<and> seen \<subseteq> seen'
      \<and> seen' - set q' = seen - set q
      \<and> int (card seen') - int (length q') = int (card seen) - int (length q)
      \<and> (free_cell blocked w h (add cur d) \<longrightarrow> add cur d \<in> seen')"
proof -
  let ?k = "add cur d"
  from ok have A: "set q \<subseteq> seen" "distinct q" "seen \<subseteq> reachable_cells blocked w h start"
    by (simp_all add: visit_ok_def)
  have fin: "finite seen" using A(3) finite_reachable by (rule finite_subset)
  show ?thesis
  proof (cases "free_cell blocked w h ?k \<and> ?k \<notin> seen")
    case True
    then have e: "seen' = insert ?k seen" "q' = q @ [?k]"
      using res by (auto simp: visit_step_def Let_def free_cell_def)
    have kq: "?k \<notin> set q" using True A(1) by auto
    have kr: "?k \<in> reachable_cells blocked w h start"
      using reachable_step[OF cur d] True by simp
    have "card (insert ?k seen) = Suc (card seen)" using True fin by simp
    then show ?thesis unfolding e visit_ok_def using A kq kr True by auto
  next
    case False
    then have e: "seen' = seen" "q' = q"
      using res by (auto simp: visit_step_def Let_def free_cell_def)
    show ?thesis unfolding e using ok False by auto
  qed
qed

lemma fold_visit_props:
  assumes "visit_ok blocked w h start sq"
    and "cur \<in> reachable_cells blocked w h start" and "snd ` set xs \<subseteq> deltas"
    and "fold (\<lambda>(mv, d) sq'. visit_step blocked w h cur d sq') xs sq = sq'"
  shows "visit_ok blocked w h start sq' \<and> fst sq \<subseteq> fst sq'
    \<and> fst sq' - set (snd sq') = fst sq - set (snd sq)
    \<and> int (card (fst sq')) - int (length (snd sq')) = int (card (fst sq)) - int (length (snd sq))
    \<and> (\<forall>d \<in> snd ` set xs. free_cell blocked w h (add cur d) \<longrightarrow> add cur d \<in> fst sq')"
  using assms
proof (induction xs arbitrary: sq)
  case Nil
  then show ?case by auto
next
  case (Cons x xs)
  obtain mv d where x: "x = (mv, d)" by (cases x)
  obtain seen q where sq: "sq = (seen, q)" by (cases sq)
  obtain seen1 q1 where s1: "visit_step blocked w h cur d (seen, q) = (seen1, q1)"
    by (cases "visit_step blocked w h cur d (seen, q)")
  have d: "d \<in> deltas" using Cons.prems(3) x by auto
  note P = visit_step_props[OF Cons.prems(1)[unfolded sq] Cons.prems(2) d s1]
  have res': "fold (\<lambda>(mv, d) sq'. visit_step blocked w h cur d sq') xs (seen1, q1) = sq'"
    using Cons.prems(4) by (simp add: x sq s1)
  have sub': "snd ` set xs \<subseteq> deltas" using Cons.prems(3) by auto
  have ok1: "visit_ok blocked w h start (seen1, q1)" using P by simp
  note ih = Cons.IH[OF ok1 Cons.prems(2) sub' res']
  show ?case using ih P by (auto simp: sq x)
qed

lemma visit_props:
  assumes "visit_ok blocked w h start (seen, q)"
    and "cur \<in> reachable_cells blocked w h start"
    and "visit blocked w h cur (seen, q) = (seen', q')"
  shows "visit_ok blocked w h start (seen', q')" and "seen \<subseteq> seen'"
    and "seen' - set q' = seen - set q"
    and "int (card seen') - int (length q') = int (card seen) - int (length q)"
    and "\<forall>d \<in> deltas. free_cell blocked w h (add cur d) \<longrightarrow> add cur d \<in> seen'"
proof -
  have "snd ` set DIRECTIONS \<subseteq> deltas" by (simp add: deltas_def)
  from fold_visit_props[OF assms(1,2) this assms(3)[unfolded visit_def]]
  show "visit_ok blocked w h start (seen', q')" and "seen \<subseteq> seen'"
    and "seen' - set q' = seen - set q"
    and "int (card seen') - int (length q') = int (card seen) - int (length q)"
    and "\<forall>d \<in> deltas. free_cell blocked w h (add cur d) \<longrightarrow> add cur d \<in> seen'"
    by (simp_all add: deltas_def)
qed

lemma flood_loop_correct:
  assumes "flood_inv blocked w h limit start seen q count"
  shows "flood_loop blocked w h limit seen q count
           = min limit (int (card (reachable_cells blocked w h start)))"
  using assms
proof (induction "nat (limit - count)" arbitrary: seen q count rule: less_induct)
  case less
  let ?R = "reachable_cells blocked w h start"
  from less.prems have A: "set q \<subseteq> seen" "distinct q" "start \<in> seen" "seen \<subseteq> ?R"
    "\<forall>c \<in> seen - set q. \<forall>d \<in> deltas. free_cell blocked w h (add c d) \<longrightarrow> add c d \<in> seen"
    "count = int (card seen) - int (length q)" "count \<le> limit"
    by (simp_all add: flood_inv_def)
  have fin: "finite seen" using A(4) finite_reachable by (rule finite_subset)
  have le: "card seen \<le> card ?R" using A(4) finite_reachable by (rule card_mono[rotated])
  show ?case
  proof (cases q)
    case Nil
    have "?R \<subseteq> seen" using A(3,5) Nil by (intro closed_contains_reachable) auto
    then have "seen = ?R" using A(4) by auto
    then have "count = int (card ?R)" using A(6) Nil by simp
    then show ?thesis using A(7) Nil
      by (simp add: flood_loop.simps[of blocked w h limit seen "[]" count])
  next
    case (Cons cur rest)
    show ?thesis
    proof (cases "count < limit")
      case False
      then have "count = limit" using A(7) by simp
      moreover have "count \<le> int (card ?R)" using A(6) le by simp
      ultimately show ?thesis using Cons False
        by (simp add: flood_loop.simps[of blocked w h limit seen "cur # rest" count])
    next
      case True
      obtain seen' q' where v: "visit blocked w h cur (seen, rest) = (seen', q')"
        by (cases "visit blocked w h cur (seen, rest)")
      have cur: "cur \<in> seen" "cur \<notin> set rest" using A(1,2) Cons by auto
      have curR: "cur \<in> ?R" using cur(1) A(4) by blast
      have ok: "visit_ok blocked w h start (seen, rest)"
        using A(1,2,4) Cons by (simp add: visit_ok_def)
      note V = visit_props[OF ok curR v]
      have B: "set q' \<subseteq> seen'" "distinct q'" "seen' \<subseteq> ?R"
        using V(1) by (simp_all add: visit_ok_def)
      have proc: "seen' - set q' = insert cur (seen - set q)"
        unfolding V(3) using cur Cons by auto
      have closed: "\<forall>c \<in> seen' - set q'. \<forall>d \<in> deltas.
                      free_cell blocked w h (add c d) \<longrightarrow> add c d \<in> seen'"
        unfolding proc using A(5) V(2,5) by blast
      have cnt: "count + 1 = int (card seen') - int (length q')"
        unfolding V(4) using A(6) Cons by simp
      have inv': "flood_inv blocked w h limit start seen' q' (count + 1)"
        unfolding flood_inv_def using B closed cnt True A(3) V(2) by auto
      have "nat (limit - (count + 1)) < nat (limit - count)" using True by simp
      from less.hyps[OF this inv'] show ?thesis using Cons True v
        by (simp add: flood_loop.simps[of blocked w h limit seen "cur # rest" count])
    qed
  qed
qed

lemma flood_inv_initial:
  assumes "free_cell blocked w h start" and "0 \<le> limit"
  shows "flood_inv blocked w h limit start {start} [start] 0"
  using assms by (simp add: flood_inv_def reachable_cells_def)

section \<open>The scoring loops\<close>

lemma and_then_Inr: "and_then (Inr v) f = f v"
  by (simp add: and_then_def)

lemma and_then_Inl: "and_then (Inl e) f = Inl e"
  by (simp add: and_then_def)

lemma py_float_ok: "\<bar>n\<bar> < 2 ^ 1023 \<Longrightarrow> py_float n = Inr (of_int n)"
  by (simp add: py_float_def)

lemma py_float_small: "\<bar>n\<bar> \<le> 200 \<Longrightarrow> py_float n = Inr (of_int n)"
  by (simp add: py_float_def)

lemma map_err_total:
  assumes "\<And>x. x \<in> set xs \<Longrightarrow> f x = Inr (g x)"
  shows "map_err f xs = Inr (map g xs)"
  using assms by (induction xs) (simp_all add: and_then_Inr)

lemma move_of_scored:
  assumes "cands \<noteq> []"
    and "\<And>mv nxt j. (mv, nxt) \<in> set cands \<Longrightarrow> \<exists>v. score nxt j = Inr v"
  shows "\<exists>mv nxt.
           and_then (map_err (\<lambda>(i, (mv, nxt)). and_then (score nxt (rnd i)) (\<lambda>s. Inr (s, mv)))
                       (enumerate 0 cands)) best_move = Inr mv
           \<and> (mv, nxt) \<in> set cands"
proof -
  let ?f = "\<lambda>(i, (mv, nxt)). and_then (score nxt (rnd i)) (\<lambda>s. Inr (s, mv))"
  let ?F = "\<lambda>i nxt. projr (score nxt (rnd i))"
  let ?g = "\<lambda>(i, (mv, nxt)). (?F i nxt, mv)"
  have "?f x = Inr (?g x)" if "x \<in> set (enumerate 0 cands)" for x
  proof -
    obtain i mv nxt where x: "x = (i, (mv, nxt))" by (cases x) auto
    have "i < length cands" "cands ! i = (mv, nxt)"
      using that unfolding x by (auto simp: in_set_enumerate_eq)
    then have "(mv, nxt) \<in> set cands" by (metis nth_mem)
    from assms(2)[OF this, of "rnd i"] obtain v where "score nxt (rnd i) = Inr v" by blast
    then show ?thesis unfolding x by (simp add: and_then_Inr)
  qed
  then have "map_err ?f (enumerate 0 cands) = Inr (map ?g (enumerate 0 cands))"
    by (rule map_err_total)
  then show ?thesis using best_move_of_candidates[OF assms(1), of ?F] by (simp add: and_then_Inr)
qed

lemma flood_fill_size_bounds:
  assumes "0 \<le> limit"
  shows "0 \<le> flood_fill_size start blocked w h limit
       \<and> flood_fill_size start blocked w h limit \<le> limit"
proof (cases "start \<in> blocked \<or> \<not> in_bounds start w h")
  case True
  then show ?thesis using assms by (simp add: flood_fill_size_def)
next
  case False
  then have "free_cell blocked w h start" by (simp add: free_cell_def)
  from flood_loop_correct[OF flood_inv_initial[OF this assms]] show ?thesis
    using False assms by (simp add: flood_fill_size_def)
qed

lemma manhattan_adjacent:
  assumes "d \<in> deltas"
  shows "\<bar>manhattan c t - manhattan (add c d) t\<bar> \<le> 1"
  using assms by (auto simp: deltas_def DIRECTIONS_def manhattan_def add_def)

subsection \<open>The distances returned by the bounded search\<close>

lemma bfs_loop_Nil: "bfs_loop blocked w h limit target seen [] steps = None"
  by (subst bfs_loop.simps) simp

lemma bfs_loop_stop:
  "\<not> steps < limit \<Longrightarrow> bfs_loop blocked w h limit target seen ((cur, k) # rest) steps = None"
  by (subst bfs_loop.simps) simp

lemma bfs_loop_Inl:
  "steps < limit \<Longrightarrow> bfs_visit DIRECTIONS blocked w h target cur k (seen, rest) = Inl d \<Longrightarrow>
     bfs_loop blocked w h limit target seen ((cur, k) # rest) steps = Some d"
  by (subst bfs_loop.simps) simp

lemma bfs_loop_Inr:
  "steps < limit \<Longrightarrow> bfs_visit DIRECTIONS blocked w h target cur k (seen, rest) = Inr (seen', q') \<Longrightarrow>
     bfs_loop blocked w h limit target seen ((cur, k) # rest) steps
       = bfs_loop blocked w h limit target seen' q' (steps + 1)"
  by (subst bfs_loop.simps) simp

lemma bfs_visit_bound:
  assumes "\<forall>x \<in> set q. 0 \<le> snd x \<and> snd x \<le> n" and "0 \<le> k" and "k + 1 \<le> n"
  shows "(\<forall>r. bfs_visit ds blocked w h target cur k (seen, q) = Inl r \<longrightarrow> r = k + 1)
       \<and> (\<forall>seen' q'. bfs_visit ds blocked w h target cur k (seen, q) = Inr (seen', q') \<longrightarrow>
             (\<forall>x \<in> set q'. 0 \<le> snd x \<and> snd x \<le> n))"
  using assms(1)
proof (induction ds arbitrary: seen q)
  case Nil
  then show ?case by simp
next
  case (Cons x ds)
  obtain mv d where x: "x = (mv, d)" by (cases x)
  have q2: "\<forall>x \<in> set (q @ [(add cur d, k + 1)]). 0 \<le> snd x \<and> snd x \<le> n"
    using Cons.prems assms(2,3) by auto
  note ih1 = Cons.IH[OF Cons.prems, of seen]
  note ih2 = Cons.IH[OF q2, of "insert (add cur d) seen"]
  show ?case
  proof (cases "in_bounds (add cur d) w h \<and> add cur d \<notin> blocked \<and> add cur d \<notin> seen")
    case False
    then have "bfs_visit (x # ds) blocked w h target cur k (seen, q)
             = bfs_visit ds blocked w h target cur k (seen, q)"
      unfolding x by (auto simp: Let_def)
    then show ?thesis using ih1 by simp
  next
    case True
    show ?thesis
    proof (cases "add cur d = target")
      case t: True
      then have "bfs_visit (x # ds) blocked w h target cur k (seen, q) = Inl (k + 1)"
        unfolding x using True by (simp add: Let_def)
      then show ?thesis by simp
    next
      case f: False
      then have "bfs_visit (x # ds) blocked w h target cur k (seen, q)
             = bfs_visit ds blocked w h target cur k
                 (insert (add cur d) seen, q @ [(add cur d, k + 1)])"
        unfolding x using True by (simp add: Let_def)
      then show ?thesis using ih2 by simp
    qed
  qed
qed

lemma bfs_loop_bound:
  assumes "\<forall>x \<in> set q. 0 \<le> snd x \<and> snd x \<le> steps"
    and "bfs_loop blocked w h limit target seen q steps = Some r"
  shows "0 \<le> r \<and> r \<le> limit"
  using assms
proof (induction "nat (limit - steps)" arbitrary: seen q steps rule: less_induct)
  case less
  show ?case
  proof (cases q)
    case Nil
    then show ?thesis using less.prems(2) by (simp add: bfs_loop_Nil)
  next
    case (Cons x rest)
    obtain cur k where x: "x = (cur, k)" by (cases x)
    note q = Cons[unfolded x]
    show ?thesis
    proof (cases "steps < limit")
      case False
      then show ?thesis using less.prems(2) unfolding q by (simp add: bfs_loop_stop)
    next
      case True
      have k: "0 \<le> k" "k + 1 \<le> steps + 1" using less.prems(1) unfolding q by auto
      have rest: "\<forall>x \<in> set rest. 0 \<le> snd x \<and> snd x \<le> steps + 1"
        using less.prems(1) unfolding q by auto
      note V = bfs_visit_bound[OF rest k, of DIRECTIONS blocked w h target cur seen]
      show ?thesis
      proof (cases "bfs_visit DIRECTIONS blocked w h target cur k (seen, rest)")
        case (Inl d)
        then have "d = k + 1" using V by blast
        moreover have "r = d" using less.prems(2) unfolding q bfs_loop_Inl[OF True Inl] by simp
        ultimately show ?thesis using k True by simp
      next
        case (Inr sq)
        obtain seen' q' where sq: "sq = (seen', q')" by (cases sq)
        have q': "\<forall>x \<in> set q'. 0 \<le> snd x \<and> snd x \<le> steps + 1"
          using V Inr unfolding sq by blast
        have e: "bfs_loop blocked w h limit target seen' q' (steps + 1) = Some r"
          using less.prems(2) unfolding q bfs_loop_Inr[OF True Inr[unfolded sq]] .
        have "nat (limit - (steps + 1)) < nat (limit - steps)" using True by simp
        from less.hyps[OF this q' e] show ?thesis .
      qed
    qed
  qed
qed

lemma bfs_distance_bounds:
  assumes "0 \<le> limit" and "bfs_distance start target blocked w h limit = Some d"
  shows "0 \<le> d \<and> d \<le> limit"
proof (cases "start \<in> blocked \<or> target \<in> blocked")
  case True
  then show ?thesis using assms(2) by (simp add: bfs_distance_def)
next
  case False
  show ?thesis
  proof (cases "start = target")
    case True
    then show ?thesis using assms False by (simp add: bfs_distance_def)
  next
    case ne: False
    have e: "bfs_loop blocked w h limit target {start} [(start, 0)] 0 = Some d"
      using assms(2) False ne by (simp add: bfs_distance_def)
    show ?thesis by (rule bfs_loop_bound[OF _ e]) simp
  qed
qed

subsection \<open>safe.py and greedy.py\<close>

lemma score_safe_total:
  assumes "(mv, nxt) \<in> set (candidates_with gs avoid)"
  shows "\<exists>v. score_safe gs nxt j = Inr v"
proof -
  from assms obtain d where d: "(mv, d) \<in> set DIRECTIONS" "nxt = add (head (you gs)) d"
    unfolding candidates_with_mem by blast
  have dd: "d \<in> deltas" using DIRECTIONS_tokens[OF d(1)] by simp
  let ?sp = "flood_fill_size nxt (blocked_cells gs) (width (board gs)) (height (board gs)) 96"
  let ?tw = "toward (head (you gs)) (food_target_safe gs) nxt"
  have "0 \<le> ?sp \<and> ?sp \<le> 96" by (rule flood_fill_size_bounds) simp
  then have 1: "py_float ?sp = Inr (of_int ?sp)" by (intro py_float_small) auto
  have "\<bar>?tw\<bar> \<le> 1"
    unfolding toward_def d(2) using manhattan_adjacent[OF dd]
    by (cases "food_target_safe gs") auto
  then have 2: "py_float ?tw = Inr (of_int ?tw)" by (intro py_float_small) auto
  show ?thesis by (simp add: score_safe_def Let_def 1 2 and_then_Inr)
qed

lemma move_safe_candidate:
  assumes "body (you gs) \<noteq> []" and "candidates_safe gs \<noteq> []"
  shows "\<exists>mv nxt. move_safe gs rnd = Inr mv \<and> (mv, nxt) \<in> set (candidates_safe gs)"
proof -
  have "\<exists>v. score_safe gs nxt j = Inr v" if "(mv, nxt) \<in> set (candidates_safe gs)" for mv nxt j
    using that score_safe_total unfolding candidates_safe_def by blast
  from move_of_scored[OF assms(2), of "score_safe gs", OF this] show ?thesis
    using assms by (simp add: move_safe_def scored_safe_def)
qed

lemma food_score_greedy_total:
  assumes "\<And>x. d_now = Some x \<Longrightarrow> 0 \<le> x \<and> x \<le> 120"
    and "\<And>x. d_next = Some x \<Longrightarrow> 0 \<le> x \<and> x \<le> 120"
  shows "\<exists>v. food_score_greedy d_now d_next = Inr v"
proof (cases d_now)
  case None
  then show ?thesis by (cases d_next) (simp_all add: food_score_greedy_def)
next
  case (Some a)
  show ?thesis
  proof (cases d_next)
    case None
    then show ?thesis using Some by (simp add: food_score_greedy_def)
  next
    case b: (Some b)
    have "\<bar>a - b\<bar> \<le> 200" using assms(1)[OF Some] assms(2)[OF b] by auto
    then have "py_float (a - b) = Inr (of_int (a - b))" by (rule py_float_small)
    then show ?thesis using Some b by (simp add: food_score_greedy_def and_then_Inr)
  qed
qed

lemma score_greedy_total: "\<exists>v. score_greedy gs nxt j = Inr v"
proof -
  let ?w = "width (board gs)" and ?h = "height (board gs)" and ?b = "blocked_cells gs"
  let ?sp = "flood_fill_size nxt ?b ?w ?h SPACE_LIMIT_greedy"
  let ?t = "choose_target (head (you gs)) (opp_heads gs) (food (board gs))"
  have lim: "0 \<le> SPACE_LIMIT_greedy" "SPACE_LIMIT_greedy = 120"
    by (simp_all add: SPACE_LIMIT_greedy_def)
  have sp: "0 \<le> ?sp \<and> ?sp \<le> 120" using flood_fill_size_bounds[OF lim(1)] lim(2) by simp
  have "\<exists>v. (case ?t of None \<Rightarrow> Inr 0
            | Some t \<Rightarrow> food_score_greedy
                (bfs_distance (head (you gs)) t ?b ?w ?h SPACE_LIMIT_greedy)
                (bfs_distance nxt t ?b ?w ?h SPACE_LIMIT_greedy)) = Inr v"
  proof (cases ?t)
    case None
    then show ?thesis by simp
  next
    case (Some t)
    have "\<exists>v. food_score_greedy (bfs_distance (head (you gs)) t ?b ?w ?h SPACE_LIMIT_greedy)
                (bfs_distance nxt t ?b ?w ?h SPACE_LIMIT_greedy) = Inr v"
      by (rule food_score_greedy_total) (use bfs_distance_bounds[OF lim(1)] lim(2) in auto)
    then show ?thesis using Some by simp
  qed
  then obtain fs where fs: "(case ?t of None \<Rightarrow> Inr 0
            | Some t \<Rightarrow> food_score_greedy
                (bfs_distance (head (you gs)) t ?b ?w ?h SPACE_LIMIT_greedy)
                (bfs_distance nxt t ?b ?w ?h SPACE_LIMIT_greedy)) = Inr fs" by blast
  have "\<bar>10 - ?sp\<bar> \<le> 200" using sp by auto
  then have pf: "py_float (10 - ?sp) = Inr (of_int (10 - ?sp))" by (rule py_float_small)
  show ?thesis by (simp add: score_greedy_def Let_def fs pf and_then_Inr)
qed

lemma move_greedy_candidate:
  assumes "body (you gs) \<noteq> []" and "candidates_greedy gs \<noteq> []"
  shows "\<exists>mv nxt. move_greedy gs rnd = Inr mv \<and> (mv, nxt) \<in> set (candidates_greedy gs)"
proof -
  have "\<exists>v. score_greedy gs nxt j = Inr v" if "(mv, nxt) \<in> set (candidates_greedy gs)" for mv nxt j
    by (rule score_greedy_total)
  from move_of_scored[OF assms(2), of "score_greedy gs", OF this] show ?thesis
    using assms by (simp add: move_greedy_def scored_greedy_def)
qed

subsection \<open>aggressive.py\<close>

lemma py_float_small_ex: "\<bar>n\<bar> \<le> 200 \<Longrightarrow> \<exists>v. py_float n = Inr v"
  using py_float_small by blast

lemma py_float_ok_ex: "\<bar>n\<bar> < 2 ^ 1023 \<Longrightarrow> \<exists>v. py_float n = Inr v"
  using py_float_ok by blast

lemma food_score_aggressive_total:
  assumes "d \<in> deltas" and "nxt = add (head (you gs)) d"
  shows "\<exists>v. food_score_aggressive gs nxt = Inr v"
proof (cases "food_target_aggressive gs")
  case None
  then show ?thesis by (simp add: food_score_aggressive_def)
next
  case (Some t)
  have "\<bar>manhattan (head (you gs)) t - manhattan nxt t\<bar> \<le> 200"
    unfolding assms(2) using manhattan_adjacent[OF assms(1), of "head (you gs)" t] by simp
  from py_float_small_ex[OF this] obtain x where
    x: "py_float (manhattan (head (you gs)) t - manhattan nxt t) = Inr x" by blast
  have "food_score_aggressive gs nxt = Inr (x * (5 / 2))"
    unfolding food_score_aggressive_def Some option.case x and_then_Inr ..
  then show ?thesis by blast
qed

lemma attack_head_total:
  assumes "d \<in> deltas" and "nxt = add (head (you gs)) d"
  shows "\<exists>v. attack_head gs nxt = Inr v"
proof (cases "target_head gs")
  case None
  then show ?thesis by (simp add: attack_head_def)
next
  case (Some t)
  have "\<bar>manhattan (head (you gs)) t - manhattan nxt t\<bar> \<le> 200"
    unfolding assms(2) using manhattan_adjacent[OF assms(1), of "head (you gs)" t] by simp
  from py_float_small_ex[OF this] obtain x where
    x: "py_float (manhattan (head (you gs)) t - manhattan nxt t) = Inr x" by blast
  show ?thesis
    unfolding attack_head_def Some option.case Let_def x and_then_Inr by blast
qed

lemma trap_loop_total:
  assumes "\<And>s. s \<in> set opps \<Longrightarrow> 0 \<le> snake_length s" and "snake_length (you gs) < 2 ^ 1023"
  shows "\<exists>v. trap_loop gs nxt sim_blocked opps a = Inr v"
  using assms(1)
proof (induction opps arbitrary: a)
  case Nil
  then show ?case by simp
next
  case (Cons opp opps)
  have "0 \<le> snake_length opp" using Cons.prems by simp
  then have "\<bar>max 0 (snake_length (you gs) - snake_length opp)\<bar> < 2 ^ 1023"
    using assms(2) by auto
  then have pf: "py_float (max 0 (snake_length (you gs) - snake_length opp))
                  = Inr (of_int (max 0 (snake_length (you gs) - snake_length opp)))"
    by (rule py_float_ok)
  have ih: "\<exists>v. trap_loop gs nxt sim_blocked opps b = Inr v" for b
    using Cons.prems by (intro Cons.IH) simp
  show ?case
    by (cases "min_space sim_blocked (width (board gs)) (height (board gs)) (head opp)")
       (simp_all add: pf and_then_Inr ih)
qed

lemma center_bias_total:
  assumes "d \<in> deltas" and "nxt = add (head (you gs)) d"
    and "in_bounds nxt (width (board gs)) (height (board gs))"
    and "width (board gs) < 2 ^ 1023" and "height (board gs) < 2 ^ 1023"
  shows "\<exists>v. center_bias gs nxt = Inr v"
proof -
  define B :: int where "B = 2 ^ 1023"
  have B: "1 < B" unfolding B_def by simp
  have n: "0 \<le> fst nxt" "fst nxt < width (board gs)" "0 \<le> snd nxt" "snd nxt < height (board gs)"
    using assms(3) by (simp_all add: in_bounds_def)
  have hd0: "\<bar>fst (head (you gs)) - fst nxt\<bar> \<le> 1" "\<bar>snd (head (you gs)) - snd nxt\<bar> \<le> 1"
    using assms(1) unfolding assms(2) by (auto simp: deltas_def DIRECTIONS_def add_def)
  have wh: "width (board gs) < B" "height (board gs) < B" using assms(4,5) unfolding B_def .
  have "\<bar>width (board gs) - 1\<bar> < B" "\<bar>height (board gs) - 1\<bar> < B"
    "\<bar>fst (head (you gs))\<bar> < B" "\<bar>snd (head (you gs))\<bar> < B"
    "\<bar>fst nxt\<bar> < B" "\<bar>snd nxt\<bar> < B"
    using n hd0 wh B by linarith+
  then have r: "\<bar>width (board gs) - 1\<bar> < 2 ^ 1023" "\<bar>height (board gs) - 1\<bar> < 2 ^ 1023"
    "\<bar>fst (head (you gs))\<bar> < 2 ^ 1023" "\<bar>snd (head (you gs))\<bar> < 2 ^ 1023"
    "\<bar>fst nxt\<bar> < 2 ^ 1023" "\<bar>snd nxt\<bar> < 2 ^ 1023"
    unfolding B_def .
  obtain wf where wf: "py_float (width (board gs) - 1) = Inr wf"
    using py_float_ok_ex[OF r(1)] by blast
  obtain hf where hf: "py_float (height (board gs) - 1) = Inr hf"
    using py_float_ok_ex[OF r(2)] by blast
  obtain hx where hx: "py_float (fst (head (you gs))) = Inr hx"
    using py_float_ok_ex[OF r(3)] by blast
  obtain hy where hy: "py_float (snd (head (you gs))) = Inr hy"
    using py_float_ok_ex[OF r(4)] by blast
  obtain nx where nx: "py_float (fst nxt) = Inr nx"
    using py_float_ok_ex[OF r(5)] by blast
  obtain ny where ny: "py_float (snd nxt) = Inr ny"
    using py_float_ok_ex[OF r(6)] by blast
  show ?thesis
    unfolding center_bias_def wf hf hx hy nx ny and_then_Inr Let_def by blast
qed

lemma score_aggressive_total:
  assumes "(mv, nxt) \<in> set (candidates_with gs avoid)"
    and "width (board gs) < 2 ^ 1023" and "height (board gs) < 2 ^ 1023"
    and "\<forall>s \<in> set (snakes (board gs)). 0 \<le> snake_length s"
    and "snake_length (you gs) < 2 ^ 1023"
  shows "\<exists>v. score_aggressive gs nxt j = Inr v"
proof -
  from assms(1) obtain d where d: "(mv, d) \<in> set DIRECTIONS" "nxt = add (head (you gs)) d"
    "in_bounds nxt (width (board gs)) (height (board gs))"
    unfolding candidates_with_mem by blast
  have dd: "d \<in> deltas" using DIRECTIONS_tokens[OF d(1)] by simp
  let ?sp = "flood_fill_size nxt (blocked_cells gs) (width (board gs)) (height (board gs))
               SPACE_LIMIT_aggressive"
  have "0 \<le> ?sp \<and> ?sp \<le> SPACE_LIMIT_aggressive"
    by (rule flood_fill_size_bounds) (simp add: SPACE_LIMIT_aggressive_def)
  then have "\<bar>?sp\<bar> \<le> 200" by (simp add: SPACE_LIMIT_aggressive_def)
  then have sp: "py_float ?sp = Inr (of_int ?sp)" by (rule py_float_small)
  obtain fs where fs: "food_score_aggressive gs nxt = Inr fs"
    using food_score_aggressive_total[OF dd d(2)] by blast
  obtain a where a: "attack_head gs nxt = Inr a" using attack_head_total[OF dd d(2)] by blast
  have opp: "0 \<le> snake_length s" if "s \<in> set (opponents gs)" for s
    using that assms(4) by (simp add: opponents_def)
  have "\<exists>v. attack_trap gs nxt a = Inr v"
    using trap_loop_total[of "opponents gs" gs nxt "insert nxt (blocked_cells gs)" a, OF opp assms(5)]
    by (cases "opponents gs = []") (simp_all add: attack_trap_def)
  then obtain at0 where at0: "attack_trap gs nxt a = Inr at0" by blast
  obtain cb where cb: "center_bias gs nxt = Inr cb"
    using center_bias_total[OF dd d(2,3) assms(2,3)] by blast
  show ?thesis
    unfolding score_aggressive_def Let_def fs a at0 cb sp and_then_Inr by blast
qed

lemma move_aggressive_candidate:
  assumes "body (you gs) \<noteq> []" and "candidates_greedy gs \<noteq> []"
    and "width (board gs) < 2 ^ 1023" and "height (board gs) < 2 ^ 1023"
    and "\<forall>s \<in> set (snakes (board gs)). 0 \<le> snake_length s"
    and "snake_length (you gs) < 2 ^ 1023"
  shows "\<exists>mv nxt. move_aggressive gs rnd = Inr mv \<and> (mv, nxt) \<in> set (candidates_greedy gs)"
proof -
  have "\<exists>v. score_aggressive gs nxt j = Inr v" if "(mv, nxt) \<in> set (candidates_greedy gs)"
    for mv nxt j
    using that score_aggressive_total[OF _ assms(3-6)] unfolding candidates_greedy_def by blast
  from move_of_scored[OF assms(2), of "score_aggressive gs", OF this] show ?thesis
    using assms(1,2) by (simp add: move_aggressive_def scored_aggressive_def)
qed

text \<open>The only error of the scoring loop of aggressive.py is the overflow of a float.\<close>

lemma and_then_InlD:
  "and_then x f = Inl e \<Longrightarrow> x = Inl e \<or> (\<exists>v. x = Inr v \<and> f v = Inl e)"
  by (cases x) (simp_all add: and_then_def)

lemma py_float_Inl: "py_float n = Inl e \<Longrightarrow> e = OverflowError"
  by (simp add: py_float_def split: if_splits)

lemma map_err_Inl: "map_err f xs = Inl e \<Longrightarrow> \<exists>x \<in> set xs. f x = Inl e"
proof (induction xs)
  case Nil
  then show ?case by simp
next
  case (Cons x xs)
  show ?case
  proof (cases "f x")
    case (Inl e')
    then show ?thesis using Cons.prems by (simp add: and_then_def)
  next
    case (Inr y)
    then have "map_err f xs = Inl e"
      using Cons.prems by (cases "map_err f xs") (simp_all add: and_then_def)
    then show ?thesis using Cons.IH by simp
  qed
qed

lemma map_err_Inr: "map_err f xs = Inr ys \<Longrightarrow> list_all2 (\<lambda>x y. f x = Inr y) xs ys"
proof (induction xs arbitrary: ys)
  case Nil
  then show ?case by simp
next
  case (Cons x xs)
  from Cons.prems obtain y where y: "f x = Inr y"
    by (cases "f x") (simp_all add: and_then_def)
  from Cons.prems y obtain ys' where ys': "map_err f xs = Inr ys'"
    by (cases "map_err f xs") (simp_all add: and_then_def)
  have "ys = y # ys'" using Cons.prems y ys' by (simp add: and_then_def)
  then show ?case using y Cons.IH[OF ys'] by simp
qed

lemma move_of_scored_cases:
  assumes "cands \<noteq> []"
    and "\<And>nxt j e. score nxt j = Inl e \<Longrightarrow> e = OverflowError"
  shows "and_then (map_err (\<lambda>(i, (mv, nxt)). and_then (score nxt (rnd i)) (\<lambda>s. Inr (s, mv)))
                     (enumerate 0 cands)) best_move = Inl OverflowError
       \<or> (\<exists>mv nxt.
             and_then (map_err (\<lambda>(i, (mv, nxt)). and_then (score nxt (rnd i)) (\<lambda>s. Inr (s, mv)))
                         (enumerate 0 cands)) best_move = Inr mv
             \<and> (mv, nxt) \<in> set cands)"
proof -
  let ?f = "\<lambda>(i, (mv, nxt)). and_then (score nxt (rnd i)) (\<lambda>s. Inr (s, mv))"
  show ?thesis
  proof (cases "map_err ?f (enumerate 0 cands)")
    case (Inl e)
    from map_err_Inl[OF Inl] obtain x where x: "x \<in> set (enumerate 0 cands)" "?f x = Inl e"
      by blast
    obtain i mv nxt where xe: "x = (i, (mv, nxt))" by (cases x) auto
    have "score nxt (rnd i) = Inl e"
      using x(2) unfolding xe by (cases "score nxt (rnd i)") (simp_all add: and_then_def)
    then have "e = OverflowError" by (rule assms(2))
    then show ?thesis using Inl by (simp add: and_then_Inl)
  next
    case (Inr ys)
    note L = map_err_Inr[OF Inr]
    have len: "length ys = length cands" using list_all2_lengthD[OF L] by simp
    then have "ys \<noteq> []" using assms(1) by auto
    from best_move_mem[OF this] obtain s mv where b: "best_move ys = Inr mv" "(s, mv) \<in> set ys"
      by blast
    from b(2) obtain k where k: "k < length ys" "ys ! k = (s, mv)" by (auto simp: in_set_conv_nth)
    have kc: "k < length cands" using k(1) len by simp
    obtain mv' nxt where c: "cands ! k = (mv', nxt)" by (cases "cands ! k")
    have "?f (enumerate 0 cands ! k) = Inr (ys ! k)"
      using list_all2_nthD[OF L, of k] kc by simp
    then have "and_then (score nxt (rnd k)) (\<lambda>s. Inr (s, mv')) = Inr (s, mv)"
      using kc c k(2) by (simp add: nth_enumerate_eq)
    then have "mv' = mv" by (cases "score nxt (rnd k)") (simp_all add: and_then_def)
    then have "(mv, nxt) \<in> set cands" using c kc by (metis nth_mem)
    then show ?thesis using b(1) Inr by (auto simp: and_then_Inr)
  qed
qed

lemma food_score_aggressive_Inl: "food_score_aggressive gs nxt = Inl e \<Longrightarrow> e = OverflowError"
  by (auto simp: food_score_aggressive_def split: option.splits
           dest!: and_then_InlD dest: py_float_Inl)

lemma attack_head_Inl: "attack_head gs nxt = Inl e \<Longrightarrow> e = OverflowError"
  by (auto simp: attack_head_def Let_def split: option.splits
           dest!: and_then_InlD dest: py_float_Inl)

lemma trap_loop_Inl: "trap_loop gs nxt sim_blocked opps a = Inl e \<Longrightarrow> e = OverflowError"
proof (induction opps arbitrary: a)
  case Nil
  then show ?case by simp
next
  case (Cons opp opps)
  show ?case
  proof (cases "manhattan (head opp) nxt \<le> 4")
    case False
    then show ?thesis using Cons by simp
  next
    case True
    show ?thesis
    proof (cases "min_space sim_blocked (width (board gs)) (height (board gs)) (head opp)")
      case None
      then show ?thesis using Cons True by simp
    next
      case (Some m)
      show ?thesis
      proof (cases "m < 10")
        case False
        then show ?thesis using Cons True Some by simp
      next
        case m: True
        from Cons.prems have
          "and_then (py_float (max 0 (snake_length (you gs) - snake_length opp)))
             (\<lambda>x. trap_loop gs nxt sim_blocked opps (a + (6 + x * (1 / 2)) * AGGRESSION)) = Inl e"
          using True Some m by simp
        from and_then_InlD[OF this] show ?thesis using py_float_Inl Cons.IH by blast
      qed
    qed
  qed
qed

lemma attack_trap_Inl: "attack_trap gs nxt a = Inl e \<Longrightarrow> e = OverflowError"
  using trap_loop_Inl by (cases "opponents gs = []") (auto simp: attack_trap_def)

lemma center_bias_Inl: "center_bias gs nxt = Inl e \<Longrightarrow> e = OverflowError"
  unfolding center_bias_def Let_def
  by (blast dest: and_then_InlD py_float_Inl)

lemma score_aggressive_Inl: "score_aggressive gs nxt j = Inl e \<Longrightarrow> e = OverflowError"
  unfolding score_aggressive_def Let_def
  by (blast dest: and_then_InlD py_float_Inl food_score_aggressive_Inl attack_head_Inl
        attack_trap_Inl center_bias_Inl)

lemma move_aggressive_cases:
  assumes "body (you gs) \<noteq> []" and "candidates_greedy gs \<noteq> []"
  shows "move_aggressive gs rnd = Inl OverflowError
       \<or> (\<exists>mv nxt. move_aggressive gs rnd = Inr mv \<and> (mv, nxt) \<in> set (candidates_greedy gs))"
  using move_of_scored_cases[OF assms(2), of "score_aggressive gs" rnd] score_aggressive_Inl assms
  by (simp add: move_aggressive_def scored_aggressive_def)

section \<open>The avoidance set contains the planner's own neighbourhood\<close>

text \<open>
  Claim C2. The planner's own snake is one of \<^verbatim>\<open>board["snakes"]\<close> (some snake of the list
  has the planner's head) and its body is not empty. If some snake with another id is at
  least as long as the planner, the avoidance set is the set of one-step neighbours of
  every head of the list, the planner's included: safe.py, greedy.py and aggressive.py
  have no candidate and return the panic move "down".
\<close>

theorem panic_when_not_strictly_largest:
  assumes "\<exists>s \<in> set (snakes (board gs)). head s = head (you gs)"
    and "body (you gs) \<noteq> []"
    and "\<exists>s \<in> set (snakes (board gs)).
           snake_id s \<noteq> snake_id (you gs) \<and> snake_length (you gs) \<le> snake_length s"
  shows "candidates_safe gs = [] \<and> candidates_greedy gs = []
         \<and> move_safe gs rnd = Inr ''down''
         \<and> move_greedy gs rnd = Inr ''down''
         \<and> move_aggressive gs rnd = Inr ''down''"
proof -
  from assms(3) obtain s where s: "s \<in> set (snakes (board gs))"
    "snake_id s \<noteq> snake_id (you gs)" "snake_length (you gs) \<le> snake_length s" by blast
  have "snake_length (you gs) \<le> largest_opp_safe gs"
    using largest_opp_safe_ge[OF s(1,2)] s(3) by simp
  then have a: "avoid_safe gs = next_heads_of_opponents gs" by (simp add: avoid_safe_def)
  have "snake_length (you gs) \<le> largest_opp gs"
    using largest_opp_ge[OF s(1,2)] s(3) by simp
  then have b: "avoid_head gs = next_heads_of_opponents gs" by (simp add: avoid_head_def)
  have c1: "candidates_safe gs = []"
    by (simp add: candidates_safe_def a candidates_with_own_head_avoided[OF assms(1)])
  have c2: "candidates_greedy gs = []"
    by (simp add: candidates_greedy_def b candidates_with_own_head_avoided[OF assms(1)])
  show ?thesis using c1 c2 assms(2)
    by (simp add: move_safe_def move_greedy_def move_aggressive_def)
qed


theorem panic_when_not_strictly_largest_witness:
  "(\<exists>s \<in> set (snakes (board ex_far_opponent)). head s = head (you ex_far_opponent))
   \<and> body (you ex_far_opponent) \<noteq> []
   \<and> (\<exists>s \<in> set (snakes (board ex_far_opponent)).
         snake_id s \<noteq> snake_id (you ex_far_opponent)
         \<and> snake_length (you ex_far_opponent) \<le> snake_length s)
   \<and> candidates_safe ex_far_opponent = [] \<and> candidates_greedy ex_far_opponent = []
   \<and> move_safe ex_far_opponent (\<lambda>i. 0) = Inr ''down''
   \<and> move_greedy ex_far_opponent (\<lambda>i. 0) = Inr ''down''
   \<and> move_aggressive ex_far_opponent (\<lambda>i. 0) = Inr ''down''"
proof -
  have h1: "\<exists>s \<in> set (snakes (board ex_far_opponent)). head s = head (you ex_far_opponent)"
    by (simp add: ex_far_opponent_def)
  have h2: "body (you ex_far_opponent) \<noteq> []"
    by (simp add: ex_far_opponent_def)
  have h3: "\<exists>s \<in> set (snakes (board ex_far_opponent)).
              snake_id s \<noteq> snake_id (you ex_far_opponent)
              \<and> snake_length (you ex_far_opponent) \<le> snake_length s"
    by (simp add: ex_far_opponent_def)
  show ?thesis
    using panic_when_not_strictly_largest [OF h1 h2 h3, of "\<lambda>i. 0"] h1 h2 h3 by simp
qed

section \<open>The fallback move\<close>

lemma heappop_single: "heappop [x] = (x, [])"
  by (simp add: heappop_def)

lemma safe_moves_empty_iff:
  "safe_moves c w h dangers = [] \<longleftrightarrow>
     (\<forall>d \<in> snd ` set DIRECTIONS. \<not> (in_bounds (add c d) w h \<and> add c d \<notin> dangers))"
  by (simp add: safe_moves_def DIRECTIONS_def)

lemma fold_unchanged: "(\<And>x. x \<in> set xs \<Longrightarrow> f x s = s) \<Longrightarrow> fold f xs s = s"
  by (induction xs) simp_all

lemma relax_no_safe_moves:
  assumes "safe_moves c w h dangers = []"
  shows "relax w h dangers n c st = st"
  unfolding relax_def
proof (rule fold_unchanged)
  fix x assume x: "x \<in> set DIRECTIONS"
  obtain mv d where xd: "x = (mv, d)" by (cases x)
  obtain ds q cf where st: "st = (ds, q, cf)" by (cases st)
  have "d \<in> snd ` set DIRECTIONS" using x xd by force
  then have "\<not> (in_bounds (add c d) w h \<and> add c d \<notin> dangers)"
    using assms unfolding safe_moves_empty_iff by blast
  then show "(case x of (mv, d) \<Rightarrow> \<lambda>st'. relax_step w h dangers n c d st') st = st"
    by (auto simp: xd st relax_step_def Let_def)
qed

lemma dijkstra_no_safe_moves:
  assumes "safe_moves c w h dangers = []"
  shows "dijkstra w h c dangers foods = Some (Inr [])"
proof (cases "c \<in> set foods")
  case True
  then show ?thesis
    by (simp add: dijkstra_def dijkstra_loop.simps[of w h c dangers foods "([c \<mapsto> 0], [(0, c)], Map.empty)"]
        heappop_single build_path.simps[of _ c c])
next
  case False
  then show ?thesis
    by (simp add: dijkstra_def dijkstra_loop.simps[of w h c dangers foods "([c \<mapsto> 0], [(0, c)], Map.empty)"]
        dijkstra_loop.simps[of w h c dangers foods "([c \<mapsto> 0], [], Map.empty)"]
        heappop_single relax_no_safe_moves[OF assms])
qed

text \<open>
  Claim C3, as amended. When the safety filter leaves no candidate, safe.py, greedy.py and
  aggressive.py return "down" whatever the scores would be. When no cell next to the head
  is in bounds and free of bodies, the path finder of main.py returns the empty path and
  main.py returns its own fallback, "up".
\<close>

theorem fallback_when_no_legal_direction:
  assumes "body (you gs) \<noteq> []"
  shows "(candidates_safe gs = [] \<longrightarrow> move_safe gs rnd = Inr ''down'')
    \<and> (candidates_greedy gs = [] \<longrightarrow>
          move_greedy gs rnd = Inr ''down'' \<and> move_aggressive gs rnd = Inr ''down'')
    \<and> (safe_moves (hd (body (you gs))) (width (board gs)) (height (board gs))
          (board_occupied_cells gs) = [] \<longrightarrow>
        dijkstra (width (board gs)) (height (board gs)) (hd (body (you gs)))
          (board_occupied_cells gs) (food (board gs)) = Some (Inr [])
        \<and> move_main gs = Some (Inr ''up''))"
proof -
  obtain c cs where b: "body (you gs) = c # cs" using assms by (cases "body (you gs)") auto
  have m: "dijkstra (width (board gs)) (height (board gs)) c
          (board_occupied_cells gs) (food (board gs)) = Some (Inr [])
        \<and> move_main gs = Some (Inr ''up'')"
    if "safe_moves c (width (board gs)) (height (board gs)) (board_occupied_cells gs) = []"
  proof -
    have d: "dijkstra (width (board gs)) (height (board gs)) c
          (board_occupied_cells gs) (food (board gs)) = Some (Inr [])"
      by (rule dijkstra_no_safe_moves[OF that])
    show ?thesis by (simp add: d move_main_def b Let_def that)
  qed
  have s: "candidates_safe gs = [] \<longrightarrow> move_safe gs rnd = Inr ''down''"
    using assms by (simp add: move_safe_def)
  have g: "candidates_greedy gs = [] \<longrightarrow>
          move_greedy gs rnd = Inr ''down'' \<and> move_aggressive gs rnd = Inr ''down''"
    using assms by (simp add: move_greedy_def move_aggressive_def)
  show ?thesis using s g m by (simp add: b)
qed

theorem fallback_when_no_legal_direction_witness:
  "body (you ex_boxed) \<noteq> []
   \<and> candidates_safe ex_boxed = [] \<and> move_safe ex_boxed (\<lambda>i. 0) = Inr ''down''
   \<and> candidates_greedy ex_boxed = []
   \<and> move_greedy ex_boxed (\<lambda>i. 0) = Inr ''down'' \<and> move_aggressive ex_boxed (\<lambda>i. 0) = Inr ''down''
   \<and> safe_moves (hd (body (you ex_boxed))) (width (board ex_boxed)) (height (board ex_boxed))
          (board_occupied_cells ex_boxed) = []
   \<and> move_main ex_boxed = Some (Inr ''up'')"
proof -
  have h: "body (you ex_boxed) \<noteq> []" by (simp add: ex_boxed_def)
  have c1: "candidates_safe ex_boxed = []" by code_simp
  have c2: "candidates_greedy ex_boxed = []" by code_simp
  have c3: "safe_moves (hd (body (you ex_boxed))) (width (board ex_boxed)) (height (board ex_boxed))
          (board_occupied_cells ex_boxed) = []" by code_simp
  show ?thesis
    using fallback_when_no_legal_direction [OF h, of "\<lambda>i. 0"] h c1 c2 c3 by simp
qed

text \<open>
  Claim C3, as stated, fails for main.py: on the 1 by 1 board no direction is legal, the
  path is empty, and the move is not "down".
\<close>

theorem fallback_down_counterexample:
  "candidates_safe ex_boxed = [] \<and> candidates_greedy ex_boxed = []
   \<and> dijkstra 1 1 (0, 0) (board_occupied_cells ex_boxed) [] = Some (Inr [])
   \<and> safe_moves (0, 0) 1 1 (board_occupied_cells ex_boxed) = []
   \<and> move_main ex_boxed \<noteq> Some (Inr ''down'')"
  by code_simp

section \<open>Target selection of greedy.py\<close>

lemma closer_iff_winnable:
  "ohs \<noteq> [] \<Longrightarrow> closer_than_opponents hd0 ohs f \<longleftrightarrow> winnable hd0 ohs f"
  by (simp add: closer_than_opponents_def winnable_def min_default_Min)

lemma closer_no_opponents:
  "closer_than_opponents hd0 [] f \<longleftrightarrow> manhattan hd0 f < 1000000"
  by (simp add: closer_than_opponents_def min_default_def)

lemma winnable_loop_Cons:
  "winnable_loop hd0 ohs (f # fs) best = winnable_loop hd0 ohs fs (next_best hd0 ohs f best)"
  by (simp add: Let_def closer_than_opponents_def next_best_def split: option.splits)

lemma next_best_None:
  "next_best hd0 ohs f best = None \<longleftrightarrow> best = None \<and> \<not> closer_than_opponents hd0 ohs f"
  by (simp add: next_best_def split: option.splits)

lemma next_best_ok: "best_ok hd0 ohs best \<Longrightarrow> best_ok hd0 ohs (next_best hd0 ohs f best)"
  by (auto simp: next_best_def best_ok_def split: option.splits prod.splits)

lemma next_best_Some:
  assumes "next_best hd0 ohs f best = Some (t, td)" and "best_ok hd0 ohs best"
  shows "(t = f \<and> td = manhattan hd0 f \<and> closer_than_opponents hd0 ohs f
          \<and> (\<forall>bf bd. best = Some (bf, bd) \<longrightarrow> td \<le> bd))
         \<or> (best = Some (t, td) \<and> (closer_than_opponents hd0 ohs f \<longrightarrow> td \<le> manhattan hd0 f))"
  using assms by (auto simp: next_best_def best_ok_def split: option.splits if_splits prod.splits)

lemma winnable_loop_None:
  "winnable_loop hd0 ohs fs best = None \<longleftrightarrow>
     best = None \<and> (\<forall>f \<in> set fs. \<not> closer_than_opponents hd0 ohs f)"
proof (induction fs arbitrary: best)
  case Nil then show ?case by simp
next
  case (Cons f fs)
  show ?case unfolding winnable_loop_Cons Cons.IH next_best_None by auto
qed

lemma winnable_loop_Some:
  assumes "winnable_loop hd0 ohs fs best = Some (t, td)" and "best_ok hd0 ohs best"
  shows "td = manhattan hd0 t \<and> closer_than_opponents hd0 ohs t
         \<and> (t \<in> set fs \<or> best = Some (t, td))
         \<and> (\<forall>f \<in> set fs. closer_than_opponents hd0 ohs f \<longrightarrow> td \<le> manhattan hd0 f)
         \<and> (\<forall>bf bd. best = Some (bf, bd) \<longrightarrow> td \<le> bd)"
  using assms
proof (induction fs arbitrary: best)
  case Nil
  then show ?case by (simp add: best_ok_def)
next
  case (Cons f fs)
  let ?next = "next_best hd0 ohs f best"
  have ok: "best_ok hd0 ohs ?next" by (rule next_best_ok[OF Cons.prems(2)])
  from Cons.IH[OF Cons.prems(1)[unfolded winnable_loop_Cons] ok]
  have ih: "td = manhattan hd0 t" "closer_than_opponents hd0 ohs t"
    "t \<in> set fs \<or> ?next = Some (t, td)"
    "\<forall>f \<in> set fs. closer_than_opponents hd0 ohs f \<longrightarrow> td \<le> manhattan hd0 f"
    "\<forall>bf bd. ?next = Some (bf, bd) \<longrightarrow> td \<le> bd" by blast+
  have le_f: "closer_than_opponents hd0 ohs f \<longrightarrow> td \<le> manhattan hd0 f"
  proof
    assume c: "closer_than_opponents hd0 ohs f"
    then obtain u ud where u: "?next = Some (u, ud)"
      using next_best_None[of hd0 ohs f best] by (cases ?next) auto
    from next_best_Some[OF u Cons.prems(2)] c have "ud \<le> manhattan hd0 f" by auto
    moreover have "td \<le> ud" using ih(5) u by blast
    ultimately show "td \<le> manhattan hd0 f" by simp
  qed
  have le_best: "\<forall>bf bd. best = Some (bf, bd) \<longrightarrow> td \<le> bd"
  proof (intro allI impI)
    fix bf bd assume b: "best = Some (bf, bd)"
    then obtain u ud where u: "?next = Some (u, ud)"
      using next_best_None[of hd0 ohs f best] by (cases ?next) auto
    from next_best_Some[OF u Cons.prems(2)] b have "ud \<le> bd" by auto
    moreover have "td \<le> ud" using ih(5) u by blast
    ultimately show "td \<le> bd" by simp
  qed
  have mem: "t \<in> set (f # fs) \<or> best = Some (t, td)"
  proof (cases "t \<in> set fs")
    case True then show ?thesis by simp
  next
    case False
    then have "?next = Some (t, td)" using ih(3) by simp
    from next_best_Some[OF this Cons.prems(2)] show ?thesis by auto
  qed
  show ?case using ih(1,2,4) le_f le_best mem by simp
qed

text \<open>
  Claim C9. If some food is winnable, the target chosen by greedy.py is a winnable food
  whose distance from the planner's head is least among the winnable foods. If there is
  food and none is winnable, the target is a food of least Manhattan distance. With the
  head at (0,0), one opponent head at (5,5) and food at (1,0), the target is (1,0).
\<close>

theorem greedy_target_selection:
  "((\<exists>f \<in> set foods. winnable hd0 ohs f) \<longrightarrow>
      (\<exists>t. choose_target hd0 ohs foods = Some t \<and> t \<in> set foods \<and> winnable hd0 ohs t
           \<and> (\<forall>f \<in> set foods. winnable hd0 ohs f \<longrightarrow> manhattan hd0 t \<le> manhattan hd0 f)))
   \<and> (foods \<noteq> [] \<and> \<not> (\<exists>f \<in> set foods. winnable hd0 ohs f) \<longrightarrow>
      (\<exists>t. choose_target hd0 ohs foods = Some t \<and> t \<in> set foods
           \<and> (\<forall>f \<in> set foods. manhattan hd0 t \<le> manhattan hd0 f)))
   \<and> choose_target (0, 0) [(5, 5)] [(1, 0)] = Some (1, 0)"
proof (intro conjI impI)
  show "choose_target (0, 0) [(5, 5)] [(1, 0)] = Some (1, 0)"
    by (simp add: choose_target_def min_default_def manhattan_def)
next
  assume a: "foods \<noteq> [] \<and> \<not> (\<exists>f \<in> set foods. winnable hd0 ohs f)"
  then obtain f0 where f0: "f0 \<in> set foods" by (cases foods) auto
  have "ohs \<noteq> []" using a f0 by (auto simp: winnable_def)
  then have "\<forall>f \<in> set foods. \<not> closer_than_opponents hd0 ohs f"
    using a by (simp add: closer_iff_winnable)
  then have "winnable_loop hd0 ohs foods None = None" by (simp add: winnable_loop_None)
  then have "choose_target hd0 ohs foods = nearest_food hd0 foods"
    using a by (simp add: choose_target_def)
  then show "\<exists>t. choose_target hd0 ohs foods = Some t \<and> t \<in> set foods
           \<and> (\<forall>f \<in> set foods. manhattan hd0 t \<le> manhattan hd0 f)"
    using nearest_food_least[of foods hd0] a by simp
next
  assume a: "\<exists>f \<in> set foods. winnable hd0 ohs f"
  then have ne: "foods \<noteq> []" by auto
  show "\<exists>t. choose_target hd0 ohs foods = Some t \<and> t \<in> set foods \<and> winnable hd0 ohs t
           \<and> (\<forall>f \<in> set foods. winnable hd0 ohs f \<longrightarrow> manhattan hd0 t \<le> manhattan hd0 f)"
  proof (cases "winnable_loop hd0 ohs foods None")
    case None
    then have nc: "\<forall>f \<in> set foods. \<not> closer_than_opponents hd0 ohs f"
      by (simp add: winnable_loop_None)
    have o: "ohs = []" using nc a by (cases ohs) (auto simp: closer_iff_winnable)
    have ct: "choose_target hd0 ohs foods = nearest_food hd0 foods"
      using None ne by (simp add: choose_target_def)
    obtain t where t: "nearest_food hd0 foods = Some t" "t \<in> set foods"
      "\<forall>f \<in> set foods. manhattan hd0 t \<le> manhattan hd0 f"
      using nearest_food_least[OF ne, of hd0] by blast
    show ?thesis using t ct o by (simp add: winnable_def)
  next
    case (Some r)
    obtain t td where r: "r = (t, td)" by (cases r)
    have ok: "best_ok hd0 ohs None" by (simp add: best_ok_def)
    from winnable_loop_Some[OF Some[unfolded r] ok]
    have p: "td = manhattan hd0 t" "closer_than_opponents hd0 ohs t" "t \<in> set foods"
      "\<forall>f \<in> set foods. closer_than_opponents hd0 ohs f \<longrightarrow> td \<le> manhattan hd0 f" by auto
    have ct: "choose_target hd0 ohs foods = Some t"
      using Some r ne by (simp add: choose_target_def)
    show ?thesis
    proof (cases "ohs = []")
      case True
      have "manhattan hd0 t \<le> manhattan hd0 f" if "f \<in> set foods" for f
      proof (cases "closer_than_opponents hd0 ohs f")
        case True then show ?thesis using p(1,4) that by auto
      next
        case False
        then have "1000000 \<le> manhattan hd0 f" using \<open>ohs = []\<close> by (simp add: closer_no_opponents)
        moreover have "manhattan hd0 t < 1000000" using p(2) \<open>ohs = []\<close> by (simp add: closer_no_opponents)
        ultimately show ?thesis by simp
      qed
      then show ?thesis using ct p(3) True by (simp add: winnable_def)
    next
      case False
      then show ?thesis using ct p by (simp add: closer_iff_winnable)
    qed
  qed
qed

theorem greedy_target_selection_witness:
  "(\<exists>f \<in> set [(1, 0)]. winnable (0, 0) [(5, 5)] f)
   \<and> choose_target (0, 0) [(5, 5)] [(1, 0)] = Some (1, 0)
   \<and> [(2, 0), (3, 0)] \<noteq> ([] :: cell list)
   \<and> \<not> (\<exists>f \<in> set [(2, 0), (3, 0)]. winnable (0, 0) [(1, 0)] f)
   \<and> choose_target (0, 0) [(1, 0)] [(2, 0), (3, 0)] = Some (2, 0)"
proof -
  have h1: "\<exists>f \<in> set [(1, 0)]. winnable (0, 0) [(5, 5)] f"
    by (simp add: winnable_def manhattan_def)
  have h2: "\<not> (\<exists>f \<in> set [(2, 0), (3, 0)]. winnable (0, 0) [(1, 0)] f)"
    by (simp add: winnable_def manhattan_def)
  have t1: "choose_target (0, 0) [(5, 5)] [(1, 0)] = Some (1, 0)"
    using greedy_target_selection [of "[(1, 0)]" "(0, 0)" "[(5, 5)]"] h1 by auto
  have "\<exists>t. choose_target (0, 0) [(1, 0)] [(2, 0), (3, 0)] = Some t \<and> t \<in> set [(2, 0), (3, 0)]
           \<and> (\<forall>f \<in> set [(2, 0), (3, 0)]. manhattan (0, 0) t \<le> manhattan (0, 0) f)"
    using greedy_target_selection [of "[(2, 0), (3, 0)]" "(0, 0)" "[(1, 0)]"] h2 by blast
  then have t2: "choose_target (0, 0) [(1, 0)] [(2, 0), (3, 0)] = Some (2, 0)"
    by (auto simp: manhattan_def)
  show ?thesis using h1 h2 t1 t2 by simp
qed

section \<open>The avoidance set on an open board\<close>

text \<open>
  Claim C1, evaluated on an open 11 by 11 board: the planner (length 3) is in the corner
  (0,0) with its body along the bottom row, and the only other snake (length 3) has its
  head in the opposite corner. The cell (0,1) next to the planner's head is in bounds and
  in no body, and the only opposing head is 19 steps away from it. Yet (0,1) is in the set
  returned by \<^verbatim>\<open>next_heads_of_opponents\<close>, because it is next to the planner's own head;
  it is in the avoidance set of each of safe.py, greedy.py and aggressive.py; and each of
  them returns "down", which leads to (0,-1), off the board.
\<close>

theorem own_head_neighbours_avoided_on_open_board:
  "in_bounds (0, 1) (width (board ex_far_opponent)) (height (board ex_far_opponent))
   \<and> manhattan (0, 1) (head (you ex_far_opponent)) = 1
   \<and> (0, 1) \<notin> board_occupied_cells ex_far_opponent
   \<and> opp_heads ex_far_opponent = [(10, 10)]
   \<and> manhattan (0, 1) (10, 10) = 19
   \<and> (0, 1) \<in> next_heads_of_opponents ex_far_opponent
   \<and> (0, 1) \<in> avoid_safe ex_far_opponent
   \<and> (0, 1) \<in> avoid_head ex_far_opponent
   \<and> move_safe ex_far_opponent (\<lambda>i. 0) = Inr ''down''
   \<and> move_greedy ex_far_opponent (\<lambda>i. 0) = Inr ''down''
   \<and> move_aggressive ex_far_opponent (\<lambda>i. 0) = Inr ''down''
   \<and> destination (head (you ex_far_opponent)) ''down'' = Some (0, -1)
   \<and> \<not> in_bounds (0, -1) (width (board ex_far_opponent)) (height (board ex_far_opponent))"
  by code_simp

section \<open>A move is returned within the range of a float\<close>

text \<open>
  Claim C4, as amended. When the own body is not empty, the \<^verbatim>\<open>move\<close> functions of safe.py,
  greedy.py and main.py return, without raising, one of the tokens "up", "down", "left",
  "right". The \<^verbatim>\<open>move\<close> function of aggressive.py returns one of the four tokens or raises
  \<^verbatim>\<open>OverflowError\<close>; it returns a token whenever the width and the height of the board and
  the planner's length are below \<open>2^1023\<close> and no snake of the board has a negative length.
  \<^verbatim>\<open>dijkstra\<close> returns on every input, and the first cell of a non-empty path is at
  Manhattan distance 1 from the start, so that the lookup in \<^verbatim>\<open>move_map\<close> succeeds.
\<close>

theorem moves_valid_within_float_range:
  assumes "body (you gs) \<noteq> []"
  shows "(\<exists>m. move_safe gs rnd = Inr m \<and> m \<in> tokens)
    \<and> (\<exists>m. move_greedy gs rnd = Inr m \<and> m \<in> tokens)
    \<and> (move_aggressive gs rnd = Inl OverflowError
        \<or> (\<exists>m. move_aggressive gs rnd = Inr m \<and> m \<in> tokens))
    \<and> (width (board gs) < 2 ^ 1023 \<and> height (board gs) < 2 ^ 1023
        \<and> (\<forall>s \<in> set (snakes (board gs)). 0 \<le> snake_length s)
        \<and> snake_length (you gs) < 2 ^ 1023 \<longrightarrow>
          (\<exists>m. move_aggressive gs rnd = Inr m \<and> m \<in> tokens))
    \<and> (\<exists>m. move_main gs = Some (Inr m) \<and> m \<in> tokens)
    \<and> (\<exists>path. dijkstra w h start dangers foods = Some (Inr path)
          \<and> (path \<noteq> [] \<longrightarrow>
                manhattan (hd path) start = 1
                \<and> (\<exists>m. map_of move_map (fst (hd path) - fst start, snd (hd path) - snd start)
                         = Some m)))"
proof -
  have down: "''down'' \<in> tokens" by (simp add: tokens_def)
  have p1: "\<exists>m. move_safe gs rnd = Inr m \<and> m \<in> tokens"
  proof (cases "candidates_safe gs = []")
    case True
    then show ?thesis using assms down by (simp add: move_safe_def)
  next
    case False
    from move_safe_candidate[OF assms False, of rnd] show ?thesis
      unfolding candidates_safe_def using candidate_props(1) by blast
  qed
  have p2: "\<exists>m. move_greedy gs rnd = Inr m \<and> m \<in> tokens"
  proof (cases "candidates_greedy gs = []")
    case True
    then show ?thesis using assms down by (simp add: move_greedy_def)
  next
    case False
    from move_greedy_candidate[OF assms False, of rnd] show ?thesis
      unfolding candidates_greedy_def using candidate_props(1) by blast
  qed
  have p3: "move_aggressive gs rnd = Inl OverflowError
        \<or> (\<exists>m. move_aggressive gs rnd = Inr m \<and> m \<in> tokens)"
  proof (cases "candidates_greedy gs = []")
    case True
    then show ?thesis using assms down by (simp add: move_aggressive_def)
  next
    case False
    from move_aggressive_cases[OF assms False, of rnd] show ?thesis
      unfolding candidates_greedy_def using candidate_props(1) by blast
  qed
  have p4: "width (board gs) < 2 ^ 1023 \<and> height (board gs) < 2 ^ 1023
        \<and> (\<forall>s \<in> set (snakes (board gs)). 0 \<le> snake_length s)
        \<and> snake_length (you gs) < 2 ^ 1023 \<longrightarrow>
          (\<exists>m. move_aggressive gs rnd = Inr m \<and> m \<in> tokens)"
  proof
    assume a: "width (board gs) < 2 ^ 1023 \<and> height (board gs) < 2 ^ 1023
        \<and> (\<forall>s \<in> set (snakes (board gs)). 0 \<le> snake_length s)
        \<and> snake_length (you gs) < 2 ^ 1023"
    then have a1: "width (board gs) < 2 ^ 1023" and a2: "height (board gs) < 2 ^ 1023"
      and a3: "\<forall>s \<in> set (snakes (board gs)). 0 \<le> snake_length s"
      and a4: "snake_length (you gs) < 2 ^ 1023" by blast+
    show "\<exists>m. move_aggressive gs rnd = Inr m \<and> m \<in> tokens"
    proof (cases "candidates_greedy gs = []")
      case True
      then show ?thesis using assms down by (simp add: move_aggressive_def)
    next
      case False
      from move_aggressive_candidate[OF assms False a1 a2 a3 a4, of rnd] show ?thesis
        unfolding candidates_greedy_def using candidate_props(1) by blast
    qed
  qed
  obtain c cs where b: "body (you gs) = c # cs" using assms by (cases "body (you gs)") auto
  have p5: "\<exists>m. move_main gs = Some (Inr m) \<and> m \<in> tokens"
    using move_main_result[OF b] by blast
  obtain r where r: "dijkstra w h start dangers foods = Some (Inr r)"
    "good_first_step w h start dangers r" using dijkstra_returns by blast
  have "manhattan (hd r) start = 1
      \<and> (\<exists>m. map_of move_map (fst (hd r) - fst start, snd (hd r) - snd start) = Some m)"
    if rne: "r \<noteq> []"
  proof -
    obtain x xs where x: "r = x # xs" using rne by (cases r) auto
    from r(2) obtain d where d: "d \<in> deltas" "x = add start d"
      unfolding x good_first_step_def by auto
    have diff: "(fst x - fst start, snd x - snd start) = d" unfolding d(2) by (simp add: add_def)
    have "manhattan x start = 1"
      using d(1) unfolding d(2) by (auto simp: deltas_def DIRECTIONS_def manhattan_def add_def)
    then show ?thesis using move_map_delta[OF d(1)] unfolding x diff[symmetric] by auto
  qed
  then have p6: "\<exists>path. dijkstra w h start dangers foods = Some (Inr path)
          \<and> (path \<noteq> [] \<longrightarrow>
                manhattan (hd path) start = 1
                \<and> (\<exists>m. map_of move_map (fst (hd path) - fst start, snd (hd path) - snd start)
                         = Some m))"
    using r(1) by blast
  show ?thesis by (intro conjI; fact)
qed

theorem moves_valid_within_float_range_witness:
  "body (you ex_duel) \<noteq> []
   \<and> width (board ex_duel) = 5 \<and> height (board ex_duel) = 5
   \<and> map snake_length (snakes (board ex_duel)) = [3, 2] \<and> snake_length (you ex_duel) = 3
   \<and> move_safe ex_duel (\<lambda>i. 0) = Inr ''up'' \<and> move_greedy ex_duel (\<lambda>i. 0) = Inr ''up''
   \<and> move_aggressive ex_duel (\<lambda>i. 0) = Inr ''right'' \<and> move_main ex_duel = Some (Inr ''left'')
   \<and> ''up'' \<in> tokens \<and> ''right'' \<in> tokens \<and> ''left'' \<in> tokens
   \<and> dijkstra 5 5 (2, 2) (board_occupied_cells ex_duel) [(0, 4)]
        = Some (Inr [(1, 2), (0, 2), (0, 3), (0, 4)])
   \<and> manhattan (1, 2) (2, 2) = 1
   \<and> (\<exists>path. dijkstra 5 5 (2, 2) (board_occupied_cells ex_duel) [(0, 4)] = Some (Inr path)
          \<and> path \<noteq> [] \<and> manhattan (hd path) (2, 2) = 1
          \<and> (\<exists>m. map_of move_map (fst (hd path) - fst (2, 2), snd (hd path) - snd (2, 2))
                         = Some m))"
proof -
  have h0: "body (you ex_duel) \<noteq> []" by (simp add: ex_duel_def)
  have h1: "width (board ex_duel) = 5" "height (board ex_duel) = 5"
    "map snake_length (snakes (board ex_duel)) = [3, 2]" "snake_length (you ex_duel) = 3"
    by (simp_all add: ex_duel_def)
  have h2: "width (board ex_duel) < 2 ^ 1023" "height (board ex_duel) < 2 ^ 1023"
    "snake_length (you ex_duel) < 2 ^ 1023" unfolding h1 by simp_all
  have h3: "\<forall>s \<in> set (snakes (board ex_duel)). 0 \<le> snake_length s"
    by (simp add: ex_duel_def)
  have v1: "move_safe ex_duel (\<lambda>i. 0) = Inr ''up''" by code_simp
  have v2: "move_greedy ex_duel (\<lambda>i. 0) = Inr ''up''" by code_simp
  have v3: "move_aggressive ex_duel (\<lambda>i. 0) = Inr ''right''" by code_simp
  have v4: "move_main ex_duel = Some (Inr ''left'')" by code_simp
  have v5: "dijkstra 5 5 (2, 2) (board_occupied_cells ex_duel) [(0, 4)]
              = Some (Inr [(1, 2), (0, 2), (0, 3), (0, 4)])" by code_simp
  have v6: "manhattan (1, 2) (2, 2) = 1" by (simp add: manhattan_def)
  note T = moves_valid_within_float_range [OF h0, of "\<lambda>i. 0" 5 5 "(2, 2)"
      "board_occupied_cells ex_duel" "[(0, 4)]"]
  have t: "''up'' \<in> tokens" "''right'' \<in> tokens" "''left'' \<in> tokens"
    using T h2 h3 v1 v3 v4 by auto
  have p: "\<exists>path. dijkstra 5 5 (2, 2) (board_occupied_cells ex_duel) [(0, 4)] = Some (Inr path)
          \<and> path \<noteq> [] \<and> manhattan (hd path) (2, 2) = 1
          \<and> (\<exists>m. map_of move_map (fst (hd path) - fst (2, 2), snd (hd path) - snd (2, 2))
                         = Some m)"
    using T v5 by auto
  show ?thesis using h0 h1 v1 v2 v3 v4 v5 v6 t p by simp
qed

text \<open>
  Claim C4, as stated, fails. The snapshot is well formed: the board is \<open>10^400\<close> cells
  wide and one cell high, and the planner's body has three cells. One candidate is left,
  and its scoring in aggressive.py divides \<^verbatim>\<open>width - 1\<close> by the float \<^verbatim>\<open>2.0\<close>, which
  raises \<^verbatim>\<open>OverflowError\<close>.
\<close>

theorem aggressive_overflow_counterexample:
  "0 < width (board ex_wide) \<and> 0 < height (board ex_wide) \<and> body (you ex_wide) \<noteq> []
   \<and> snake_length (you ex_wide) = int (length (body (you ex_wide)))
   \<and> candidates_greedy ex_wide = [(''left'', (0, 0))]
   \<and> move_aggressive ex_wide (\<lambda>i. 0) = Inl OverflowError"
  by code_simp

section \<open>No reversal onto the neck\<close>

text \<open>
  Claim C6, as amended. The own body has at least two cells. For safe.py, greedy.py and
  aggressive.py the planner's length is positive and greater than the length of every
  snake with another id, so that the head-collision rule is not applied (nothing is said
  here of a snapshot to which it is applied). When some direction passes the reversal
  rule and leads to an in-bounds cell outside the blocked set (all bodies but the own
  tail), safe.py and greedy.py return a move that does not lead from the head to the neck,
  and aggressive.py returns such a move or raises \<^verbatim>\<open>OverflowError\<close>. When the own body is
  the body of a snake of the board and some cell next to the head is in bounds and in no
  body, main.py returns a move that does not lead from the head to the neck.
\<close>

theorem no_reversal_when_legal:
  assumes "2 \<le> length (body (you gs))"
  shows "((\<forall>s \<in> set (snakes (board gs)).
             snake_id s \<noteq> snake_id (you gs) \<longrightarrow> snake_length s < snake_length (you gs))
          \<and> 0 < snake_length (you gs)
          \<and> (\<exists>(mv, d) \<in> set DIRECTIONS.
                neck_check (head (you gs)) (body (you gs)) mv
                \<and> in_bounds (add (head (you gs)) d) (width (board gs)) (height (board gs))
                \<and> add (head (you gs)) d \<notin> blocked_cells gs) \<longrightarrow>
           (\<exists>m. move_safe gs rnd = Inr m
              \<and> destination (head (you gs)) m \<noteq> Some (body (you gs) ! 1))
         \<and> (\<exists>m. move_greedy gs rnd = Inr m
              \<and> destination (head (you gs)) m \<noteq> Some (body (you gs) ! 1))
         \<and> (move_aggressive gs rnd = Inl OverflowError
            \<or> (\<exists>m. move_aggressive gs rnd = Inr m
                  \<and> destination (head (you gs)) m \<noteq> Some (body (you gs) ! 1))))
    \<and> ((\<exists>s \<in> set (snakes (board gs)). body s = body (you gs))
        \<and> (\<exists>d \<in> deltas.
              in_bounds (add (hd (body (you gs))) d) (width (board gs)) (height (board gs))
              \<and> add (hd (body (you gs))) d \<notin> board_occupied_cells gs) \<longrightarrow>
           (\<exists>m. move_main gs = Some (Inr m)
              \<and> destination (hd (body (you gs))) m \<noteq> Some (body (you gs) ! 1)))"
proof -
  have ne: "body (you gs) \<noteq> []" using assms by auto
  have good: "destination (head (you gs)) m \<noteq> Some (body (you gs) ! 1)"
    if "(m, nxt) \<in> set (candidates_with gs avoid)" for m nxt avoid
  proof -
    from that obtain d where d: "(m, d) \<in> set DIRECTIONS" "nxt = add (head (you gs)) d"
      "neck_check (head (you gs)) (body (you gs)) m"
      unfolding candidates_with_mem by blast
    have "nxt \<noteq> body (you gs) ! 1"
      unfolding d(2) by (rule neck_check_not_onto_neck[OF assms d(1) d(3)])
    then show ?thesis using candidate_props(2)[OF that] by simp
  qed
  have p1: "(\<forall>s \<in> set (snakes (board gs)).
             snake_id s \<noteq> snake_id (you gs) \<longrightarrow> snake_length s < snake_length (you gs))
          \<and> 0 < snake_length (you gs)
          \<and> (\<exists>(mv, d) \<in> set DIRECTIONS.
                neck_check (head (you gs)) (body (you gs)) mv
                \<and> in_bounds (add (head (you gs)) d) (width (board gs)) (height (board gs))
                \<and> add (head (you gs)) d \<notin> blocked_cells gs) \<longrightarrow>
           (\<exists>m. move_safe gs rnd = Inr m
              \<and> destination (head (you gs)) m \<noteq> Some (body (you gs) ! 1))
         \<and> (\<exists>m. move_greedy gs rnd = Inr m
              \<and> destination (head (you gs)) m \<noteq> Some (body (you gs) ! 1))
         \<and> (move_aggressive gs rnd = Inl OverflowError
            \<or> (\<exists>m. move_aggressive gs rnd = Inr m
                  \<and> destination (head (you gs)) m \<noteq> Some (body (you gs) ! 1)))"
  proof
    assume a: "(\<forall>s \<in> set (snakes (board gs)).
             snake_id s \<noteq> snake_id (you gs) \<longrightarrow> snake_length s < snake_length (you gs))
          \<and> 0 < snake_length (you gs)
          \<and> (\<exists>(mv, d) \<in> set DIRECTIONS.
                neck_check (head (you gs)) (body (you gs)) mv
                \<and> in_bounds (add (head (you gs)) d) (width (board gs)) (height (board gs))
                \<and> add (head (you gs)) d \<notin> blocked_cells gs)"
    then obtain mv d where d: "(mv, d) \<in> set DIRECTIONS"
      "neck_check (head (you gs)) (body (you gs)) mv"
      "in_bounds (add (head (you gs)) d) (width (board gs)) (height (board gs))"
      "add (head (you gs)) d \<notin> blocked_cells gs" by blast
    have e: "avoid_safe gs = {}" "avoid_head gs = {}"
      using no_avoidance_when_strictly_longest[of gs] a by blast+
    have c: "candidates_safe gs \<noteq> []" "candidates_greedy gs \<noteq> []"
      unfolding candidates_safe_def candidates_greedy_def e
      using candidates_with_nonempty[OF d, of "{}"] by simp_all
    have s1: "\<exists>m. move_safe gs rnd = Inr m
              \<and> destination (head (you gs)) m \<noteq> Some (body (you gs) ! 1)"
      using move_safe_candidate[OF ne c(1), of rnd] good unfolding candidates_safe_def by blast
    have s2: "\<exists>m. move_greedy gs rnd = Inr m
              \<and> destination (head (you gs)) m \<noteq> Some (body (you gs) ! 1)"
      using move_greedy_candidate[OF ne c(2), of rnd] good unfolding candidates_greedy_def
      by blast
    have s3: "move_aggressive gs rnd = Inl OverflowError
            \<or> (\<exists>m. move_aggressive gs rnd = Inr m
                  \<and> destination (head (you gs)) m \<noteq> Some (body (you gs) ! 1))"
      using move_aggressive_cases[OF ne c(2), of rnd] good unfolding candidates_greedy_def
      by blast
    show "(\<exists>m. move_safe gs rnd = Inr m
              \<and> destination (head (you gs)) m \<noteq> Some (body (you gs) ! 1))
         \<and> (\<exists>m. move_greedy gs rnd = Inr m
              \<and> destination (head (you gs)) m \<noteq> Some (body (you gs) ! 1))
         \<and> (move_aggressive gs rnd = Inl OverflowError
            \<or> (\<exists>m. move_aggressive gs rnd = Inr m
                  \<and> destination (head (you gs)) m \<noteq> Some (body (you gs) ! 1)))"
      by (intro conjI; fact)
  qed
  obtain c cs where b: "body (you gs) = c # cs" using ne by (cases "body (you gs)") auto
  have p2: "(\<exists>s \<in> set (snakes (board gs)). body s = body (you gs))
        \<and> (\<exists>d \<in> deltas.
              in_bounds (add (hd (body (you gs))) d) (width (board gs)) (height (board gs))
              \<and> add (hd (body (you gs))) d \<notin> board_occupied_cells gs) \<longrightarrow>
           (\<exists>m. move_main gs = Some (Inr m)
              \<and> destination (hd (body (you gs))) m \<noteq> Some (body (you gs) ! 1))"
  proof
    assume a: "(\<exists>s \<in> set (snakes (board gs)). body s = body (you gs))
        \<and> (\<exists>d \<in> deltas.
              in_bounds (add (hd (body (you gs))) d) (width (board gs)) (height (board gs))
              \<and> add (hd (body (you gs))) d \<notin> board_occupied_cells gs)"
    from a obtain s where s: "s \<in> set (snakes (board gs))" "body s = body (you gs)" by blast
    from a obtain d where d: "d \<in> deltas"
      "in_bounds (add c d) (width (board gs)) (height (board gs))"
      "add c d \<notin> board_occupied_cells gs" unfolding b by auto
    from d(1) obtain mv where mv: "(mv, d) \<in> set DIRECTIONS" unfolding deltas_def by auto
    have "mv \<in> set (safe_moves c (width (board gs)) (height (board gs)) (board_occupied_cells gs))"
      unfolding safe_moves_mem using mv d(2,3) by blast
    then have sm: "safe_moves c (width (board gs)) (height (board gs)) (board_occupied_cells gs)
                     \<noteq> []" by auto
    have "body (you gs) ! 1 \<in> set (body (you gs))" using assms by (intro nth_mem) simp
    then have "body (you gs) ! 1 \<in> set (body s)" using s(2) by simp
    then have neck: "body (you gs) ! 1 \<in> board_occupied_cells gs"
      unfolding board_occupied_cells_eq using s(1) by blast
    from move_main_result[OF b] sm obtain m nxt where m: "move_main gs = Some (Inr m)"
      "destination c m = Some nxt" "nxt \<notin> board_occupied_cells gs"
      by (auto simp del: split_paired_Ex)
    have "destination (hd (body (you gs))) m \<noteq> Some (body (you gs) ! 1)"
      using m(2,3) neck unfolding b by auto
    then show "\<exists>m. move_main gs = Some (Inr m)
              \<and> destination (hd (body (you gs))) m \<noteq> Some (body (you gs) ! 1)"
      using m(1) by blast
  qed
  show ?thesis by (intro conjI; fact)
qed

theorem no_reversal_when_legal_witness:
  "2 \<le> length (body (you ex_duel))
   \<and> map snake_length (opponents ex_duel) = [2] \<and> snake_length (you ex_duel) = 3
   \<and> map fst (candidates_with ex_duel {}) = [''up'', ''left'', ''right'']
   \<and> body (you ex_duel) ! 1 = (2, 1)
   \<and> destination (head (you ex_duel)) ''down'' = Some (2, 1)
   \<and> (\<exists>s \<in> set (snakes (board ex_duel)). body s = body (you ex_duel))
   \<and> (\<exists>m. move_safe ex_duel (\<lambda>i. 0) = Inr m
          \<and> destination (head (you ex_duel)) m \<noteq> Some (body (you ex_duel) ! 1))
   \<and> (\<exists>m. move_greedy ex_duel (\<lambda>i. 0) = Inr m
          \<and> destination (head (you ex_duel)) m \<noteq> Some (body (you ex_duel) ! 1))
   \<and> (\<exists>m. move_aggressive ex_duel (\<lambda>i. 0) = Inr m
          \<and> destination (head (you ex_duel)) m \<noteq> Some (body (you ex_duel) ! 1))
   \<and> (\<exists>m. move_main ex_duel = Some (Inr m)
          \<and> destination (hd (body (you ex_duel))) m \<noteq> Some (body (you ex_duel) ! 1))"
proof -
  have h0: "2 \<le> length (body (you ex_duel))" by (simp add: ex_duel_def)
  have h1: "\<forall>s \<in> set (snakes (board ex_duel)).
              snake_id s \<noteq> snake_id (you ex_duel) \<longrightarrow> snake_length s < snake_length (you ex_duel)"
    by (simp add: ex_duel_def)
  have h2: "0 < snake_length (you ex_duel)" by (simp add: ex_duel_def)
  have h3: "\<exists>(mv, d) \<in> set DIRECTIONS.
              neck_check (head (you ex_duel)) (body (you ex_duel)) mv
              \<and> in_bounds (add (head (you ex_duel)) d) (width (board ex_duel)) (height (board ex_duel))
              \<and> add (head (you ex_duel)) d \<notin> blocked_cells ex_duel" by code_simp
  have h4: "\<exists>s \<in> set (snakes (board ex_duel)). body s = body (you ex_duel)"
    by (simp add: ex_duel_def)
  have "(0, 1) \<in> deltas
      \<and> in_bounds (add (hd (body (you ex_duel))) (0, 1)) (width (board ex_duel)) (height (board ex_duel))
      \<and> add (hd (body (you ex_duel))) (0, 1) \<notin> board_occupied_cells ex_duel" by code_simp
  then have h5: "\<exists>d \<in> deltas.
      in_bounds (add (hd (body (you ex_duel))) d) (width (board ex_duel)) (height (board ex_duel))
      \<and> add (hd (body (you ex_duel))) d \<notin> board_occupied_cells ex_duel" by blast
  have v: "map snake_length (opponents ex_duel) = [2]" "snake_length (you ex_duel) = 3"
    "map fst (candidates_with ex_duel {}) = [''up'', ''left'', ''right'']"
    "body (you ex_duel) ! 1 = (2, 1)"
    "destination (head (you ex_duel)) ''down'' = Some (2, 1)" by code_simp+
  have a: "move_aggressive ex_duel (\<lambda>i. 0) = Inr ''right''" by code_simp
  note T = no_reversal_when_legal [OF h0, of "\<lambda>i. 0"]
  have c1: "\<exists>m. move_safe ex_duel (\<lambda>i. 0) = Inr m
          \<and> destination (head (you ex_duel)) m \<noteq> Some (body (you ex_duel) ! 1)"
    using T h1 h2 h3 by blast
  have c2: "\<exists>m. move_greedy ex_duel (\<lambda>i. 0) = Inr m
          \<and> destination (head (you ex_duel)) m \<noteq> Some (body (you ex_duel) ! 1)"
    using T h1 h2 h3 by blast
  have "move_aggressive ex_duel (\<lambda>i. 0) = Inl OverflowError
      \<or> (\<exists>m. move_aggressive ex_duel (\<lambda>i. 0) = Inr m
          \<and> destination (head (you ex_duel)) m \<noteq> Some (body (you ex_duel) ! 1))"
    using T h1 h2 h3 by blast
  then have c3: "\<exists>m. move_aggressive ex_duel (\<lambda>i. 0) = Inr m
          \<and> destination (head (you ex_duel)) m \<noteq> Some (body (you ex_duel) ! 1)"
    unfolding a by simp
  have c4: "\<exists>m. move_main ex_duel = Some (Inr m)
          \<and> destination (hd (body (you ex_duel))) m \<noteq> Some (body (you ex_duel) ! 1)"
    using T h4 h5 by blast
  show ?thesis by (intro conjI; fact)
qed

text \<open>
  Claim C6, as stated, fails. In the column snapshot, head above neck, no direction is
  legal, and the fallback "down" of safe.py, greedy.py and aggressive.py leads from the
  head onto the neck. In the flipped column, head below neck, no cell next to the head is
  free, and the fallback "up" of main.py leads from the head onto the neck.
\<close>

theorem no_reversal_counterexample:
  "2 \<le> length (body (you ex_column))
   \<and> candidates_with ex_column {} = []
   \<and> move_safe ex_column (\<lambda>i. 0) = Inr ''down''
   \<and> move_greedy ex_column (\<lambda>i. 0) = Inr ''down''
   \<and> move_aggressive ex_column (\<lambda>i. 0) = Inr ''down''
   \<and> destination (head (you ex_column)) ''down'' = Some (body (you ex_column) ! 1)
   \<and> 2 \<le> length (body (you ex_column_flipped))
   \<and> safe_moves (hd (body (you ex_column_flipped))) (width (board ex_column_flipped))
        (height (board ex_column_flipped)) (board_occupied_cells ex_column_flipped) = []
   \<and> move_main ex_column_flipped = Some (Inr ''up'')
   \<and> destination (hd (body (you ex_column_flipped))) ''up''
        = Some (body (you ex_column_flipped) ! 1)"
  by code_simp

section \<open>The space estimator counts the reachable cells up to the cap\<close>

text \<open>
  Claim C5. For a cap that is not negative, \<^verbatim>\<open>flood_fill_size\<close> returns the least of the
  cap and the number of cells reachable from the start through in-bounds cells that are
  not blocked. It returns 0 when the start is blocked or out of bounds. On the empty 5 by 5
  board it returns 25 from the centre, with the default cap of each file (64, 96, 120).
\<close>

theorem flood_fill_size_counts_reachable:
  "(0 \<le> limit \<longrightarrow>
      flood_fill_size start blocked w h limit
        = min limit (int (card (reachable_cells blocked w h start))))
   \<and> (start \<in> blocked \<or> \<not> in_bounds start w h \<longrightarrow> flood_fill_size start blocked w h limit = 0)
   \<and> flood_fill_size (2, 2) {} 5 5 64 = 25
   \<and> flood_fill_size (2, 2) {} 5 5 96 = 25
   \<and> flood_fill_size (2, 2) {} 5 5 120 = 25"
proof (intro conjI impI)
  assume l: "0 \<le> limit"
  show "flood_fill_size start blocked w h limit
        = min limit (int (card (reachable_cells blocked w h start)))"
  proof (cases "free_cell blocked w h start")
    case True
    then show ?thesis
      using flood_loop_correct[OF flood_inv_initial[OF True l]]
      by (simp add: flood_fill_size_def free_cell_def)
  next
    case False
    then show ?thesis using l
      by (auto simp: flood_fill_size_def free_cell_def reachable_cells_def)
  qed
next
  assume "start \<in> blocked \<or> \<not> in_bounds start w h"
  then show "flood_fill_size start blocked w h limit = 0"
    by (simp add: flood_fill_size_def)
next
  show "flood_fill_size (2, 2) {} 5 5 64 = 25" by code_simp
  show "flood_fill_size (2, 2) {} 5 5 96 = 25" by code_simp
  show "flood_fill_size (2, 2) {} 5 5 120 = 25" by code_simp
qed

theorem flood_fill_size_counts_reachable_witness:
  "(0::int) \<le> 4
   \<and> flood_fill_size (2, 2) {} 5 5 4 = 4
   \<and> flood_fill_size (2, 2) {} 5 5 4 = min 4 (int (card (reachable_cells {} 5 5 (2, 2))))
   \<and> (0::int) \<le> 64
   \<and> min 64 (int (card (reachable_cells {} 5 5 (2, 2)))) = 25
   \<and> card (reachable_cells {} 5 5 (2, 2)) = 25
   \<and> (2, 2) \<in> {(2, 2), (2, 3)}
   \<and> flood_fill_size (2, 2) {(2, 2), (2, 3)} 5 5 64 = 0
   \<and> \<not> in_bounds (5, 2) 5 5
   \<and> flood_fill_size (5, 2) {} 5 5 64 = 0"
proof -
  have v1: "flood_fill_size (2, 2) {} 5 5 4 = 4" by code_simp
  have v2: "flood_fill_size (2, 2) {} 5 5 64 = 25" by code_simp
  have t1: "flood_fill_size (2, 2) {} 5 5 4 = min 4 (int (card (reachable_cells {} 5 5 (2, 2))))"
    using flood_fill_size_counts_reachable [of 4 "(2, 2)" "{}" 5 5] by simp
  have t2: "min 64 (int (card (reachable_cells {} 5 5 (2, 2)))) = 25"
    using flood_fill_size_counts_reachable [of 64 "(2, 2)" "{}" 5 5] v2 by simp
  then have t3: "card (reachable_cells {} 5 5 (2, 2)) = 25" by linarith
  have t4: "flood_fill_size (2, 2) {(2, 2), (2, 3)} 5 5 64 = 0"
    using flood_fill_size_counts_reachable [of 64 "(2, 2)" "{(2, 2), (2, 3)}" 5 5] by simp
  have t5: "flood_fill_size (5, 2) {} 5 5 64 = 0"
    using flood_fill_size_counts_reachable [of 64 "(5, 2)" "{}" 5 5]
    by (simp add: in_bounds_def)
  show ?thesis using v1 t1 t2 t3 t4 t5 by (simp add: in_bounds_def)
qed

section \<open>The reversal rule on a concrete snapshot\<close>

text \<open>
  Claim C7, as amended. With the planner's head at (0,0) and its neck at (1,0), the neck
  lies to the right of the head: the neck check of \<^verbatim>\<open>move\<close> sets
  \<^verbatim>\<open>is_move_safe["right"]\<close> to False and leaves \<^verbatim>\<open>is_move_safe["left"]\<close> True.
\<close>

theorem reversal_rule_head_0_0_neck_1_0:
  "neck_check (0, 0) [(0, 0), (1, 0)] ''right'' = False
   \<and> neck_check (0, 0) [(0, 0), (1, 0)] ''left'' = True"
  by (simp add: neck_check_def)

text \<open>
  Claim C7, as stated, fails: at this snapshot the neck check does not set
  \<^verbatim>\<open>is_move_safe["left"]\<close> to False.
\<close>

theorem reversal_rule_left_counterexample:
  "neck_check (head \<lparr>snake_id = ''me'', head = (0, 0), body = [(0, 0), (1, 0)],
                      snake_length = 2, health = 100\<rparr>)
              (body \<lparr>snake_id = ''me'', head = (0, 0), body = [(0, 0), (1, 0)],
                      snake_length = 2, health = 100\<rparr>) ''left'' \<noteq> False"
  by (simp add: neck_check_def)

end
